theory Spec2Isabelle
  imports Complex_Main "HOL-Library.Log_Nat"
begin

section \<open>The image editor component: data model\<close>

text \<open>
  The development embeds the \<^verbatim>\<open>ImageEditor\<close> React component: its edit parameters, its
  undo/redo history, the autosave slot in \<^verbatim>\<open>localStorage\<close> and the geometry of the final
  render. Slider values, rotations and indices are integers and are modelled as \<^typ>\<open>int\<close>,
  pixel dimensions as \<^typ>\<open>nat\<close>. The crop computation runs in IEEE double arithmetic; a
  double is modelled by the rational it denotes, and every operation rounds.
\<close>

datatype CropRatio = Original | R1_1 | R16_9 | R4_3 | R3_4 | R9_16

record EditorState =
  brightness :: int
  contrast :: int
  rotation :: int
  cropRatio :: CropRatio

definition INITIAL_STATE :: EditorState where
  "INITIAL_STATE = \<lparr>brightness = 100, contrast = 100, rotation = 0, cropRatio = Original\<rparr>"

subsection \<open>IEEE double arithmetic\<close>

text \<open>
  \<open>fl\<close> rounds a rational to the nearest double: 53 significant bits, ties to the even
  significand. \<open>ilog2\<close> is the binary exponent of a positive rational and \<open>rne\<close> rounds to
  the nearest integer, ties to even. A JavaScript operation on doubles is the exact
  operation followed by \<open>fl\<close>. The exponent range is not modelled: image dimensions are
  below \<open>2 ^ 32\<close>, and with the five ratios every value of the crop computation is zero
  or lies between \<open>2 ^ -60\<close> and \<open>2 ^ 40\<close>, far from overflow and from the subnormal
  doubles.
\<close>

definition ilog2 :: "rat \<Rightarrow> int" where
  "ilog2 x =
     (let d = bitlen (fst (quotient_of x)) - bitlen (snd (quotient_of x))
      in if 2 powi d \<le> x then d else d - 1)"

definition rne :: "rat \<Rightarrow> int" where
  "rne y =
     (let n = \<lfloor>y\<rfloor>; r = y - of_int n
      in if r < 1 / 2 then n else if 1 / 2 < r then n + 1 else if even n then n else n + 1)"

definition fl :: "rat \<Rightarrow> rat" where
  "fl x = (if x = 0 then 0
           else let q = 2 powi (ilog2 \<bar>x\<bar> - 52) in of_int (rne (x / q)) * q)"

subsection \<open>Crop geometry\<close>

record crop =
  crop_width :: rat
  crop_height :: rat
  crop_x :: rat
  crop_y :: rat

text \<open>
  \<^verbatim>\<open>ratio.split(':').map(Number)\<close>: the two numbers of a ratio string. The string
  \<^verbatim>\<open>'original'\<close> has no colon and no numbers; the code returns before it splits it.
\<close>

fun ratio_split :: "CropRatio \<Rightarrow> (nat \<times> nat) option" where
  "ratio_split Original = None"
| "ratio_split R1_1 = Some (1, 1)"
| "ratio_split R16_9 = Some (16, 9)"
| "ratio_split R4_3 = Some (4, 3)"
| "ratio_split R3_4 = Some (3, 4)"
| "ratio_split R9_16 = Some (9, 16)"

text \<open>
  The test \<^verbatim>\<open>currentRatio > targetRatio\<close> with \<^verbatim>\<open>currentRatio = imgWidth / imgHeight\<close>.
  Division by zero does not fail in JavaScript: a positive width over height 0 is
  \<^verbatim>\<open>Infinity\<close>, which is greater than every finite ratio, and \<^verbatim>\<open>0 / 0\<close> is \<^verbatim>\<open>NaN\<close>, for
  which every comparison is false.
\<close>

definition currentRatio_gt :: "nat \<Rightarrow> nat \<Rightarrow> rat \<Rightarrow> bool" where
  "currentRatio_gt imgWidth imgHeight targetRatio =
     (if imgHeight = 0 then 0 < imgWidth
      else targetRatio < fl (of_nat imgWidth / of_nat imgHeight))"

text \<open>
  The arguments are the dimensions of the rotated canvas: those of the loaded image,
  integers below \<open>2 ^ 32\<close>, which are doubles. Every division, product and difference of
  the source is rounded.
\<close>

definition getCropDimensions :: "nat \<Rightarrow> nat \<Rightarrow> CropRatio \<Rightarrow> crop" where
  "getCropDimensions imgWidth imgHeight ratio =
     (case ratio_split ratio of
        None \<Rightarrow>
          \<lparr>crop_width = of_nat imgWidth, crop_height = of_nat imgHeight, crop_x = 0, crop_y = 0\<rparr>
      | Some (rw, rh) \<Rightarrow>
          let targetRatio = fl (of_nat rw / of_nat rh);
              width = (if currentRatio_gt imgWidth imgHeight targetRatio
                       then fl (of_nat imgHeight * targetRatio) else of_nat imgWidth);
              height = (if currentRatio_gt imgWidth imgHeight targetRatio
                        then of_nat imgHeight else fl (of_nat imgWidth / targetRatio))
          in \<lparr>crop_width = width, crop_height = height,
              crop_x = fl (fl (of_nat imgWidth - width) / 2),
              crop_y = fl (fl (of_nat imgHeight - height) / 2)\<rparr>)"

subsection \<open>JavaScript primitives used by the component\<close>

text \<open>
  \<^verbatim>\<open>xs[i]\<close> is \<^verbatim>\<open>undefined\<close> outside the array; \<^verbatim>\<open>xs.slice(0, e)\<close> counts a negative
  \<^verbatim>\<open>e\<close> from the end and clips at both ends; \<^verbatim>\<open>a % b\<close> takes the sign of \<^verbatim>\<open>a\<close>.
\<close>

definition js_index :: "'a list \<Rightarrow> int \<Rightarrow> 'a option" where
  "js_index xs i = (if 0 \<le> i \<and> i < int (length xs) then Some (xs ! nat i) else None)"

definition js_slice0 :: "'a list \<Rightarrow> int \<Rightarrow> 'a list" where
  "js_slice0 xs e = take (nat (if e < 0 then int (length xs) + e else e)) xs"

definition js_rem :: "int \<Rightarrow> int \<Rightarrow> int" where
  "js_rem a b = (if a < 0 then - ((- a) mod \<bar>b\<bar>) else a mod \<bar>b\<bar>)"

definition digit_char :: "nat \<Rightarrow> char" where
  "digit_char d = char_of (48 + d)"

text \<open>The decimal digits of a number, as a template literal prints a length.\<close>

function show_nat :: "nat \<Rightarrow> string" where
  "show_nat n = (if n < 10 then [digit_char n] else show_nat (n div 10) @ [digit_char (n mod 10)])"
  by pat_completeness auto
termination
  by (relation "measure (\<lambda>n. n)") auto

declare show_nat.simps [simp del]

subsection \<open>Component state\<close>

text \<open>
  The six \<^verbatim>\<open>useState\<close> values that the autosave stores and restores extend the four live
  edit parameters; the component adds the \<^verbatim>\<open>hasAutosave\<close> flag. A handler reads the values
  of the render it was created in and queues its updates; no handler reads a value after it
  set it, so passing the state through the handler gives the state of the next render.
\<close>

record session = EditorState +
  history :: "EditorState list"
  currentIndex :: int

record editor = session +
  hasAutosave :: bool

definition initial_editor :: editor where
  "initial_editor =
     \<lparr>brightness = brightness INITIAL_STATE, contrast = contrast INITIAL_STATE,
      rotation = rotation INITIAL_STATE, cropRatio = cropRatio INITIAL_STATE,
      history = [INITIAL_STATE], currentIndex = 0, hasAutosave = False\<rparr>"

text \<open>
  The only exception a handler can raise is the \<^verbatim>\<open>TypeError\<close> of reading a field of
  \<^verbatim>\<open>undefined\<close>. The updates queued before the exception are still applied, so a raised
  outcome carries the state too.
\<close>

datatype error = TypeError

datatype outcome = Done editor | Raised error editor

fun state_of :: "outcome \<Rightarrow> editor" where
  "state_of (Done s) = s"
| "state_of (Raised e s) = s"

fun and_then :: "outcome \<Rightarrow> (editor \<Rightarrow> outcome) \<Rightarrow> outcome" where
  "and_then (Done s) f = f s"
| "and_then (Raised e s) f = Raised e s"

subsection \<open>History logic\<close>

text \<open>\<^verbatim>\<open>history[currentIndex]\<close>, the snapshot the specification calls current.\<close>

definition current :: "'a session_scheme \<Rightarrow> EditorState option" where
  "current s = js_index (history s) (currentIndex s)"

definition applyState :: "EditorState option \<Rightarrow> editor \<Rightarrow> outcome" where
  "applyState state s =
     (case state of
        None \<Rightarrow> Raised TypeError s
      | Some st \<Rightarrow>
          Done (s\<lparr>brightness := brightness st, contrast := contrast st,
                  rotation := rotation st, cropRatio := cropRatio st\<rparr>))"

definition addToHistory :: "EditorState \<Rightarrow> editor \<Rightarrow> outcome" where
  "addToHistory newState s =
     (case js_index (history s) (currentIndex s) of
        None \<Rightarrow> Raised TypeError s
      | Some currentState \<Rightarrow>
          if brightness currentState = brightness newState \<and>
             contrast currentState = contrast newState \<and>
             rotation currentState = rotation newState \<and>
             cropRatio currentState = cropRatio newState
          then Done s
          else
            let newHistory = js_slice0 (history s) (currentIndex s + 1) @ [newState]
            in Done (s\<lparr>history := newHistory, currentIndex := int (length newHistory) - 1\<rparr>))"

definition handleUndo :: "editor \<Rightarrow> outcome" where
  "handleUndo s =
     (if currentIndex s > 0 then
        let newIndex = currentIndex s - 1
        in applyState (js_index (history s) newIndex) (s\<lparr>currentIndex := newIndex\<rparr>)
      else Done s)"

definition handleRedo :: "editor \<Rightarrow> outcome" where
  "handleRedo s =
     (if currentIndex s < int (length (history s)) - 1 then
        let newIndex = currentIndex s + 1
        in applyState (js_index (history s) newIndex) (s\<lparr>currentIndex := newIndex\<rparr>)
      else Done s)"

definition handleRotate :: "editor \<Rightarrow> outcome" where
  "handleRotate s =
     (let newRotation = js_rem (rotation s + 90) 360
      in addToHistory
           \<lparr>brightness = brightness s, contrast = contrast s,
            rotation = newRotation, cropRatio = cropRatio s\<rparr>
           (s\<lparr>rotation := newRotation\<rparr>))"

definition handleCropChange :: "CropRatio \<Rightarrow> editor \<Rightarrow> outcome" where
  "handleCropChange ratio s =
     addToHistory
       \<lparr>brightness = brightness s, contrast = contrast s,
        rotation = rotation s, cropRatio = ratio\<rparr>
       (s\<lparr>cropRatio := ratio\<rparr>)"

definition commitSliderChange :: "editor \<Rightarrow> outcome" where
  "commitSliderChange s =
     addToHistory
       \<lparr>brightness = brightness s, contrast = contrast s,
        rotation = rotation s, cropRatio = cropRatio s\<rparr> s"

definition handleReset :: "editor \<Rightarrow> outcome" where
  "handleReset s =
     and_then (applyState (Some INITIAL_STATE) s)
       (\<lambda>s1. Done (s1\<lparr>history := [INITIAL_STATE], currentIndex := 0\<rparr>))"

text \<open>
  The events of the editing controls. The two sliders only set the live value
  (\<^verbatim>\<open>onChange\<close>); releasing the pointer commits (\<^verbatim>\<open>onMouseUp\<close>, \<^verbatim>\<open>onTouchEnd\<close>).
\<close>

datatype event =
    SetBrightness int
  | SetContrast int
  | CommitSlider
  | Rotate
  | CropChange CropRatio
  | Undo
  | Redo
  | Reset

fun handle :: "event \<Rightarrow> editor \<Rightarrow> outcome" where
  "handle (SetBrightness v) s = Done (s\<lparr>brightness := v\<rparr>)"
| "handle (SetContrast v) s = Done (s\<lparr>contrast := v\<rparr>)"
| "handle CommitSlider s = commitSliderChange s"
| "handle Rotate s = handleRotate s"
| "handle (CropChange ratio) s = handleCropChange ratio s"
| "handle Undo s = handleUndo s"
| "handle Redo s = handleRedo s"
| "handle Reset s = handleReset s"

text \<open>A sequence of events; an exception in one handler does not stop the component.\<close>

fun run :: "event list \<Rightarrow> editor \<Rightarrow> editor" where
  "run [] s = s"
| "run (ev # evs) s = run evs (state_of (handle ev s))"

text \<open>The history invariant of the specification, for a session or a stored snapshot.\<close>

definition history_ok :: "'a session_scheme \<Rightarrow> bool" where
  "history_ok s =
     (0 \<le> currentIndex s \<and> currentIndex s < int (length (history s)) \<and>
      js_index (history s) 0 = Some INITIAL_STATE)"

subsection \<open>Autosave\<close>

definition getImageSignature :: "string \<Rightarrow> string" where
  "getImageSignature imgData =
     (if imgData = [] then []
      else show_nat (length imgData) @ ''-'' @ take 30 imgData @ ''-'' @
           drop (length imgData - 30) imgData)"

record stateToSave = session +
  imageSignature :: string
  timestamp :: nat

text \<open>
  The single \<^verbatim>\<open>localStorage\<close> slot: no item (or the empty string), a string that
  \<^verbatim>\<open>JSON.parse\<close> rejects (the exception is caught and logged), or the serialisation of
  a value of the shape the autosave writes. The code checks nothing but the signature of
  what it parses, so the history and the index of a stored value are arbitrary. Stored
  values of another shape are not modelled.
\<close>

datatype slot = Absent | Unparsable | Saved stateToSave

text \<open>
  A stored value that parses and carries the signature of the three-character source
  \<open>''img''\<close>, with an empty history.
\<close>

definition bad_snapshot :: stateToSave where
  "bad_snapshot =
     \<lparr>brightness = 100, contrast = 100, rotation = 0, cropRatio = Original,
      history = [], currentIndex = 0, imageSignature = ''3-img-img'', timestamp = 0\<rparr>"

text \<open>The history invariant for what the slot holds.\<close>

definition stored_ok :: "slot \<Rightarrow> bool" where
  "stored_ok st = (case st of Saved parsed \<Rightarrow> history_ok parsed | _ \<Rightarrow> True)"

text \<open>The effect that runs when the component mounts with its image.\<close>

definition autosave_check :: "string \<Rightarrow> slot \<times> editor \<Rightarrow> slot \<times> editor" where
  "autosave_check image_src w =
     (case fst w of
        Saved parsed \<Rightarrow>
          if imageSignature parsed = getImageSignature image_src
          then (fst w, (snd w)\<lparr>hasAutosave := True\<rparr>)
          else w
      | _ \<Rightarrow> w)"

text \<open>The timer of the autosave effect firing at time \<open>now\<close>.\<close>

definition autosave_fire :: "string \<Rightarrow> nat \<Rightarrow> slot \<times> editor \<Rightarrow> slot \<times> editor" where
  "autosave_fire image_src now w =
     (let s = snd w in
      (Saved \<lparr>brightness = brightness s, contrast = contrast s, rotation = rotation s,
              cropRatio = cropRatio s, history = history s, currentIndex = currentIndex s,
              imageSignature = getImageSignature image_src, timestamp = now\<rparr>,
       s))"

definition handleRestoreAutosave :: "string \<Rightarrow> slot \<times> editor \<Rightarrow> slot \<times> editor" where
  "handleRestoreAutosave image_src w =
     (case fst w of
        Saved parsed \<Rightarrow>
          if imageSignature parsed = getImageSignature image_src
          then (fst w,
                (snd w)\<lparr>brightness := brightness parsed, contrast := contrast parsed,
                        rotation := rotation parsed, cropRatio := cropRatio parsed,
                        history := history parsed, currentIndex := currentIndex parsed\<rparr>)
          else w
      | _ \<Rightarrow> w)"

text \<open>The restore button is rendered when the flag is set.\<close>

definition restore_offered :: "editor \<Rightarrow> bool" where
  "restore_offered s = hasAutosave s"

subsection \<open>Final render\<close>

text \<open>
  What the browser contributes to \<^verbatim>\<open>generateFinalImage\<close>: whether the image source
  decodes (\<^verbatim>\<open>onload\<close> fires, with the dimensions of the image; otherwise it never
  fires, and the code sets no \<^verbatim>\<open>onerror\<close>), whether the two canvases give a 2d context,
  and the encoding of the drawn canvas. The drawn canvas is described by the filter, the
  angle, the dimensions of the rotated canvas and the copied region.
\<close>

record rendering =
  filter_brightness :: int
  filter_contrast :: int
  angle :: int
  rotatedWidth :: nat
  rotatedHeight :: nat
  region :: crop

record browser =
  img_load :: "string \<Rightarrow> (nat \<times> nat) option"
  ctx :: bool
  rotCtx :: bool
  toDataURL :: "rendering \<Rightarrow> string"

text \<open>The callbacks the parent passes to the component; there is none for errors.\<close>

datatype callback = OnSave string | OnCancel

definition generateFinalImage :: "browser \<Rightarrow> string \<Rightarrow> editor \<Rightarrow> callback list" where
  "generateFinalImage b image_src s =
     (case img_load b image_src of
        None \<Rightarrow> []
      | Some (img_width, img_height) \<Rightarrow>
          if \<not> ctx b then []
          else
            let isRotatedSideways = (js_rem (rotation s) 180 \<noteq> 0);
                rotW = (if isRotatedSideways then img_height else img_width);
                rotH = (if isRotatedSideways then img_width else img_height)
            in if \<not> rotCtx b then []
               else
                 [OnSave (toDataURL b
                    \<lparr>filter_brightness = brightness s, filter_contrast = contrast s,
                     angle = rotation s, rotatedWidth = rotW, rotatedHeight = rotH,
                     region = getCropDimensions rotW rotH (cropRatio s)\<rparr>)])"

text \<open>
  The parent shows the editor while \<^verbatim>\<open>isEditingRemixSource\<close> holds and an image is set.
\<close>

record app =
  remixSourceImage :: "string option"
  isEditingRemixSource :: bool

definition handleSaveEditedImage :: "string \<Rightarrow> app \<Rightarrow> app" where
  "handleSaveEditedImage newImage a =
     a\<lparr>remixSourceImage := Some newImage, isEditingRemixSource := False\<rparr>"

fun receive :: "app \<Rightarrow> callback \<Rightarrow> app" where
  "receive a (OnSave newImage) = handleSaveEditedImage newImage a"
| "receive a OnCancel = a\<lparr>isEditingRemixSource := False\<rparr>"

text \<open>
  A click on Apply: the handler of the component, then the reaction of the parent to the
  callbacks.
\<close>

definition apply_click :: "browser \<Rightarrow> string \<Rightarrow> app \<times> editor \<Rightarrow> app \<times> editor" where
  "apply_click b image_src w =
     (foldl receive (fst w) (generateFinalImage b image_src (snd w)), snd w)"

text \<open>
  A browser in which no image source decodes, and a parent that shows the editor.
\<close>

definition undecodable :: browser where
  "undecodable =
     \<lparr>img_load = (\<lambda>src. None), ctx = True, rotCtx = True,
      toDataURL = (\<lambda>r. ''data:image/png'')\<rparr>"

definition editing :: app where
  "editing = \<lparr>remixSourceImage = Some ''img'', isEditingRemixSource = True\<rparr>"

section \<open>Properties\<close>

subsection \<open>Auxiliary facts\<close>

lemma ratio_split_pos:
  assumes "ratio_split ratio = Some (rw, rh)"
  shows "0 < rw \<and> 0 < rh"
  using assms by (cases ratio) auto

subsection \<open>Binary exponent\<close>

lemma bitlen_powi:
  assumes "0 < a"
  shows "(2::rat) powi (bitlen a - 1) \<le> of_int a \<and> of_int a < (2::rat) powi (bitlen a)"
proof -
  from bitlen_bounds [OF assms]
  have lo: "2 ^ nat (bitlen a - 1) \<le> a" and hi: "a < 2 ^ nat (bitlen a)" by simp_all
  have pos: "1 \<le> bitlen a" using assms bitlen_eq_zero_iff [of a] bitlen_nonneg [of a] by linarith
  have "(of_int (2 ^ nat (bitlen a - 1)) :: rat) \<le> of_int a" using lo by (simp only: of_int_le_iff)
  then have 1: "(2::rat) powi (bitlen a - 1) \<le> of_int a"
    using pos by (simp add: power_int_def)
  have "(of_int a :: rat) < of_int (2 ^ nat (bitlen a))" using hi by (simp only: of_int_less_iff)
  then have 2: "of_int a < (2::rat) powi (bitlen a)"
    using pos by (simp add: power_int_def)
  show ?thesis using 1 2 by simp
qed

lemma ilog2_bounds:
  assumes "0 < x"
  shows "2 powi (ilog2 x) \<le> x" and "x < 2 powi (ilog2 x + 1)"
proof -
  obtain a b where q: "quotient_of x = (a, b)" by (cases "quotient_of x")
  have b: "0 < b" using quotient_of_denom_pos [OF q] .
  have x: "x = of_int a / of_int b" using quotient_of_div [OF q] .
  have a: "0 < a" using assms b x by (simp add: zero_less_divide_iff)
  define d where "d = bitlen a - bitlen b"
  note A = bitlen_powi [OF a] and B = bitlen_powi [OF b]
  have bpos: "(0::rat) < of_int b" using b by simp
  have "(2::rat) powi (d - 1) = 2 powi (bitlen a - 1) / 2 powi (bitlen b)"
    by (simp add: d_def power_int_diff [symmetric] algebra_simps)
  also have "\<dots> \<le> of_int a / 2 powi (bitlen b)"
    using A by (simp add: divide_right_mono)
  also have "\<dots> \<le> of_int a / of_int b"
    using B a bpos by (intro divide_left_mono) (simp_all add: less_imp_le)
  finally have lo: "2 powi (d - 1) \<le> x" by (simp add: x)
  have "x < 2 powi (bitlen a) / of_int b"
    using A bpos by (simp add: x divide_strict_right_mono)
  also have "\<dots> \<le> 2 powi (bitlen a) / 2 powi (bitlen b - 1)"
    using B bpos by (intro divide_left_mono) simp_all
  also have "\<dots> = 2 powi (d + 1)"
    by (simp add: d_def power_int_diff [symmetric] algebra_simps)
  finally have hi: "x < 2 powi (d + 1)" .
  have il: "ilog2 x = (if 2 powi d \<le> x then d else d - 1)"
    by (simp add: ilog2_def q d_def Let_def)
  show "2 powi (ilog2 x) \<le> x" using lo by (simp add: il)
  show "x < 2 powi (ilog2 x + 1)" using hi by (simp add: il not_le)
qed

lemma pow2_less_imp:
  assumes "(2::rat) powi m < 2 powi n"
  shows "m < n"
proof (rule ccontr)
  assume "\<not> m < n"
  then have "n \<le> m" by simp
  then have "(2::rat) powi n \<le> 2 powi m" by (intro power_int_increasing) simp_all
  then show False using assms by simp
qed

lemma ilog2_unique:
  assumes "2 powi k \<le> x" and "x < 2 powi (k + 1)"
  shows "ilog2 x = k"
proof -
  have pos: "0 < x" using assms(1) zero_less_power_int [of "2::rat" k] by linarith
  note b = ilog2_bounds [OF pos]
  have "(2::rat) powi k < 2 powi (ilog2 x + 1)" using assms(1) b(2) by linarith
  then have 1: "k < ilog2 x + 1" by (rule pow2_less_imp)
  have "(2::rat) powi (ilog2 x) < 2 powi (k + 1)" using assms(2) b(1) by linarith
  then have 2: "ilog2 x < k + 1" by (rule pow2_less_imp)
  show ?thesis using 1 2 by linarith
qed

subsection \<open>Rounding to an integer\<close>

lemma rne_cases:
  "rne y = \<lfloor>y\<rfloor> \<or> rne y = \<lfloor>y\<rfloor> + 1"
  by (simp add: rne_def Let_def)

lemma rne_of_int [simp]: "rne (of_int n) = n"
  by (simp add: rne_def)

lemma rne_le:
  assumes "y \<le> of_int n"
  shows "rne y \<le> n"
proof (cases "y = of_int n")
  case True
  then show ?thesis by simp
next
  case False
  then have "y < of_int n" using assms by simp
  then have "\<lfloor>y\<rfloor> < n" by (simp add: floor_less_iff)
  then show ?thesis using rne_cases [of y] by linarith
qed

lemma rne_ge:
  assumes "of_int n \<le> y"
  shows "n \<le> rne y"
proof -
  have "n \<le> \<lfloor>y\<rfloor>" using assms by (simp add: le_floor_iff)
  then show ?thesis using rne_cases [of y] by linarith
qed

lemma rne_near:
  "of_int (rne y) - y \<le> 1 / 2 \<and> y - of_int (rne y) \<le> 1 / 2"
proof -
  define r where "r = y - of_int \<lfloor>y\<rfloor>"
  have r: "0 \<le> r" "r < 1" unfolding r_def by linarith+
  have y: "y = of_int \<lfloor>y\<rfloor> + r" by (simp add: r_def)
  consider "r < 1 / 2" | "1 / 2 < r" | "r = 1 / 2" by linarith
  then show ?thesis
  proof cases
    case 1
    then have "rne y = \<lfloor>y\<rfloor>" by (simp add: rne_def Let_def r_def)
    then show ?thesis using r 1 y by linarith
  next
    case 2
    then have "rne y = \<lfloor>y\<rfloor> + 1" by (simp add: rne_def Let_def r_def)
    then have "of_int (rne y) = of_int \<lfloor>y\<rfloor> + (1::rat)" by simp
    then show ?thesis using r 2 y by linarith
  next
    case 3
    have "(of_int (rne y) :: rat) = of_int \<lfloor>y\<rfloor> \<or>
          (of_int (rne y) :: rat) = of_int \<lfloor>y\<rfloor> + 1"
      using rne_cases [of y] by auto
    then show ?thesis using 3 y by linarith
  qed
qed

lemma rne_below_half:
  assumes "of_int n \<le> y" and "y < of_int n + 1 / 2"
  shows "rne y = n"
proof -
  have "\<lfloor>y\<rfloor> = n" using assms by (intro floor_unique) linarith+
  then show ?thesis using assms by (simp add: rne_def Let_def)
qed


subsection \<open>Rounding to a double\<close>

lemma fl_zero [simp]: "fl 0 = 0"
  by (simp add: fl_def)

lemma fl_pos_unfold:
  assumes "0 < x"
  shows "fl x = of_int (rne (x / 2 powi (ilog2 x - 52))) * 2 powi (ilog2 x - 52)"
  using assms by (simp add: fl_def Let_def)

lemma pow2_split: "(2::rat) powi e = 2 ^ 52 * 2 powi (e - 52)"
proof -
  have "(2::rat) powi e = 2 powi (52 + (e - 52))" by simp
  also have "\<dots> = 2 powi 52 * 2 powi (e - 52)" by (subst power_int_add) simp_all
  finally show ?thesis by simp
qed

lemma pow2_succ: "(2::rat) powi (e + 1) = 2 * 2 powi e"
  by (subst power_int_add) simp_all

lemma scaled_bounds:
  assumes "0 < x"
  shows "2 ^ 52 \<le> x / 2 powi (ilog2 x - 52)" and "x / 2 powi (ilog2 x - 52) < 2 ^ 53"
proof -
  let ?q = "(2::rat) powi (ilog2 x - 52)"
  have q: "0 < ?q" by simp
  note b = ilog2_bounds [OF assms]
  have "2 ^ 52 * ?q \<le> x" using b(1) pow2_split [of "ilog2 x"] by simp
  then show "2 ^ 52 \<le> x / ?q" using q by (simp add: pos_le_divide_eq)
  have "x < 2 * (2 ^ 52 * ?q)" using b(2) pow2_succ [of "ilog2 x"] pow2_split [of "ilog2 x"] by simp
  then have "x < 2 ^ 53 * ?q" by simp
  then show "x / ?q < 2 ^ 53" using q by (simp add: pos_divide_less_eq)
qed

lemma rne_scaled_bounds:
  assumes "0 < x"
  shows "2 ^ 52 \<le> rne (x / 2 powi (ilog2 x - 52))" and "rne (x / 2 powi (ilog2 x - 52)) \<le> 2 ^ 53"
proof -
  note s = scaled_bounds [OF assms]
  have "of_int (2 ^ 52) \<le> x / 2 powi (ilog2 x - 52)" using s(1) by simp
  then show "2 ^ 52 \<le> rne (x / 2 powi (ilog2 x - 52))" by (rule rne_ge)
  have "x / 2 powi (ilog2 x - 52) \<le> of_int (2 ^ 53)" using s(2) by simp
  then show "rne (x / 2 powi (ilog2 x - 52)) \<le> 2 ^ 53" by (rule rne_le)
qed

lemma fl_bounds:
  assumes "0 < x"
  shows "2 powi (ilog2 x) \<le> fl x" and "fl x \<le> 2 powi (ilog2 x + 1)"
proof -
  let ?q = "(2::rat) powi (ilog2 x - 52)"
  let ?n = "rne (x / ?q)"
  have q: "0 < ?q" by simp
  note r = rne_scaled_bounds [OF assms]
  have lo: "(2 ^ 52 :: rat) \<le> of_int ?n"
  proof -
    have "(of_int (2 ^ 52) :: rat) \<le> of_int ?n" using r(1) by (simp only: of_int_le_iff)
    then show ?thesis by simp
  qed
  have hi: "(of_int ?n :: rat) \<le> 2 ^ 53"
  proof -
    have "(of_int ?n :: rat) \<le> of_int (2 ^ 53)" using r(2) by (simp only: of_int_le_iff)
    then show ?thesis by simp
  qed
  have "2 ^ 52 * ?q \<le> of_int ?n * ?q" using lo q by (simp add: mult_right_mono)
  then show "2 powi (ilog2 x) \<le> fl x"
    using pow2_split [of "ilog2 x"] fl_pos_unfold [OF assms] by simp
  have "of_int ?n * ?q \<le> 2 ^ 53 * ?q" using hi q by (simp add: mult_right_mono)
  then show "fl x \<le> 2 powi (ilog2 x + 1)"
    using pow2_succ [of "ilog2 x"] pow2_split [of "ilog2 x"] fl_pos_unfold [OF assms] by simp
qed

lemma fl_pos:
  assumes "0 < x"
  shows "0 < fl x"
  using fl_bounds(1) [OF assms] zero_less_power_int [of "2::rat" "ilog2 x"] by linarith

lemma fl_le_double:
  assumes "0 < x"
  shows "fl x \<le> 2 * x"
  using fl_bounds(2) [OF assms] ilog2_bounds(1) [OF assms] pow2_succ [of "ilog2 x"] by linarith

lemma fl_fixed_scaled:
  assumes "0 < r" and "fl r = r"
  shows "r / 2 powi (ilog2 r - 52) = of_int (rne (r / 2 powi (ilog2 r - 52)))"
proof -
  have "of_int (rne (r / 2 powi (ilog2 r - 52))) * 2 powi (ilog2 r - 52) = r"
    using fl_pos_unfold [OF assms(1)] assms(2) by simp
  then show ?thesis by (simp add: field_simps)
qed

lemma ilog2_mono:
  assumes "0 < x" and "x \<le> y"
  shows "ilog2 x \<le> ilog2 y"
proof -
  have y: "0 < y" using assms by simp
  have "(2::rat) powi (ilog2 x) < 2 powi (ilog2 y + 1)"
    using ilog2_bounds(1) [OF assms(1)] ilog2_bounds(2) [OF y] assms(2) by linarith
  then have "ilog2 x < ilog2 y + 1" by (rule pow2_less_imp)
  then show ?thesis by simp
qed

lemma fl_upper:
  assumes "0 < x" and "x \<le> r" and "fl r = r"
  shows "fl x \<le> r"
proof -
  have r: "0 < r" using assms by simp
  have le: "ilog2 x \<le> ilog2 r" using ilog2_mono [OF assms(1,2)] .
  show ?thesis
  proof (cases "ilog2 x = ilog2 r")
    case True
    let ?q = "(2::rat) powi (ilog2 r - 52)"
    have q: "0 < ?q" by simp
    have "x / ?q \<le> r / ?q" using assms(2) q by (simp add: divide_right_mono)
    then have "x / ?q \<le> of_int (rne (r / ?q))" using fl_fixed_scaled [OF r assms(3)] by simp
    then have "rne (x / ?q) \<le> rne (r / ?q)" by (rule rne_le)
    then have "(of_int (rne (x / ?q)) :: rat) \<le> of_int (rne (r / ?q))" by simp
    then have ineq: "of_int (rne (x / ?q)) * ?q \<le> of_int (rne (r / ?q)) * ?q"
      using q by (simp add: mult_right_mono)
    have "fl x = of_int (rne (x / ?q)) * ?q"
      using fl_pos_unfold [OF assms(1)] True by simp
    also note ineq
    also have "of_int (rne (r / ?q)) * ?q = fl r"
      using fl_pos_unfold [OF r] by simp
    finally show ?thesis using assms(3) by simp
  next
    case False
    then have "ilog2 x + 1 \<le> ilog2 r" using le by simp
    then have "(2::rat) powi (ilog2 x + 1) \<le> 2 powi (ilog2 r)"
      by (intro power_int_increasing) simp_all
    then show ?thesis using fl_bounds(2) [OF assms(1)] ilog2_bounds(1) [OF r] by linarith
  qed
qed

lemma fl_lower:
  assumes "0 < r" and "r \<le> x" and "fl r = r"
  shows "r \<le> fl x"
proof -
  have x: "0 < x" using assms by simp
  have le: "ilog2 r \<le> ilog2 x" using ilog2_mono [OF assms(1,2)] .
  show ?thesis
  proof (cases "ilog2 x = ilog2 r")
    case True
    let ?q = "(2::rat) powi (ilog2 r - 52)"
    have q: "0 < ?q" by simp
    have "r / ?q \<le> x / ?q" using assms(2) q by (simp add: divide_right_mono)
    then have "of_int (rne (r / ?q)) \<le> x / ?q" using fl_fixed_scaled [OF assms(1,3)] by simp
    then have "rne (r / ?q) \<le> rne (x / ?q)" by (rule rne_ge)
    then have "(of_int (rne (r / ?q)) :: rat) \<le> of_int (rne (x / ?q))" by simp
    then have ineq: "of_int (rne (r / ?q)) * ?q \<le> of_int (rne (x / ?q)) * ?q"
      using q by (simp add: mult_right_mono)
    have "fl r = of_int (rne (r / ?q)) * ?q"
      using fl_pos_unfold [OF assms(1)] by simp
    also note ineq
    also have "of_int (rne (x / ?q)) * ?q = fl x"
      using fl_pos_unfold [OF x] True by simp
    finally show ?thesis using assms(3) by simp
  next
    case False
    then have "ilog2 r + 1 \<le> ilog2 x" using le by simp
    then have "(2::rat) powi (ilog2 r + 1) \<le> 2 powi (ilog2 x)"
      by (intro power_int_increasing) simp_all
    then show ?thesis using fl_bounds(1) [OF x] ilog2_bounds(2) [OF assms(1)] by linarith
  qed
qed


lemma fl_exact:
  assumes "0 < n" and "n < 2 ^ 53"
  shows "fl (of_int n * 2 powi k) = of_int n * 2 powi k"
proof -
  define x :: rat where "x = of_int n * 2 powi k"
  have x: "0 < x" using assms(1) by (simp add: x_def)
  define j where "j = k - ilog2 x + 52"
  have "(of_int n :: rat) < of_int (2 ^ 53)" using assms(2) by (simp only: of_int_less_iff)
  then have "x < 2 ^ 53 * 2 powi k" by (simp add: x_def)
  also have "\<dots> = 2 powi (53 + k)" by (subst power_int_add) simp_all
  finally have "(2::rat) powi (ilog2 x) < 2 powi (53 + k)"
    using ilog2_bounds(1) [OF x] by linarith
  then have "ilog2 x < 53 + k" by (rule pow2_less_imp)
  then have j: "0 \<le> j" by (simp add: j_def)
  have "x / 2 powi (ilog2 x - 52) = of_int n * (2 powi k / 2 powi (ilog2 x - 52))"
    by (simp add: x_def)
  also have "2 powi k / (2::rat) powi (ilog2 x - 52) = 2 powi j"
    by (simp add: j_def power_int_diff [symmetric] algebra_simps)
  also have "(2::rat) powi j = of_int (2 ^ nat j)" using j by (simp add: power_int_def)
  finally have sc: "x / 2 powi (ilog2 x - 52) = of_int (n * 2 ^ nat j)" by simp
  have "fl x = of_int (rne (of_int (n * 2 ^ nat j))) * 2 powi (ilog2 x - 52)"
    using fl_pos_unfold [OF x] by (simp only: sc)
  also have "\<dots> = of_int (n * 2 ^ nat j) * 2 powi (ilog2 x - 52)"
    by (simp only: rne_of_int)
  also have "\<dots> = x / 2 powi (ilog2 x - 52) * 2 powi (ilog2 x - 52)"
    by (simp only: sc)
  also have "\<dots> = x" by simp
  finally show ?thesis by (simp add: x_def)
qed

lemma fl_of_nat:
  assumes "n < 2 ^ 53"
  shows "fl (of_nat n) = of_nat n"
proof (cases "n = 0")
  case True
  then show ?thesis by simp
next
  case False
  have "int n < int (2 ^ 53)" using assms by (simp only: of_nat_less_iff)
  then have "int n < 2 ^ 53" by (simp only: of_nat_power of_nat_numeral)
  then have "fl (of_int (int n) * 2 powi 0) = of_int (int n) * 2 powi 0"
    using False by (intro fl_exact) simp_all
  then show ?thesis by simp
qed

lemma fl_idem:
  assumes "0 < x"
  shows "fl (fl x) = fl x"
proof -
  let ?q = "(2::rat) powi (ilog2 x - 52)"
  let ?n = "rne (x / ?q)"
  note r = rne_scaled_bounds [OF assms]
  have f: "fl x = of_int ?n * ?q" using fl_pos_unfold [OF assms] .
  show ?thesis
  proof (cases "?n = 2 ^ 53")
    case True
    have "fl x = 2 ^ 53 * ?q" using f by (simp only: True) simp
    also have "\<dots> = of_int 1 * 2 powi (ilog2 x + 1)"
      using pow2_succ [of "ilog2 x"] pow2_split [of "ilog2 x"] by simp
    finally have e: "fl x = of_int 1 * 2 powi (ilog2 x + 1)" .
    show ?thesis unfolding e by (rule fl_exact) simp_all
  next
    case False
    then have "?n < 2 ^ 53" using r(2) by simp
    moreover have "0 < ?n" using r(1) by simp
    ultimately show ?thesis unfolding f by (rule fl_exact [rotated])
  qed
qed

lemma ilog2_half:
  assumes "0 < x"
  shows "ilog2 (x / 2) = ilog2 x - 1"
proof (rule ilog2_unique)
  note b = ilog2_bounds [OF assms]
  have "(2::rat) powi (ilog2 x) = 2 * 2 powi (ilog2 x - 1)"
    using pow2_succ [of "ilog2 x - 1"] by simp
  then show "2 powi (ilog2 x - 1) \<le> x / 2" using b(1) by simp
  show "x / 2 < 2 powi (ilog2 x - 1 + 1)" using b(2) pow2_succ [of "ilog2 x"] by simp
qed

lemma fl_half:
  assumes "0 < x"
  shows "fl (x / 2) = fl x / 2"
proof -
  have h: "0 < x / 2" using assms by simp
  define q :: rat where "q = 2 powi (ilog2 x - 52)"
  define q' :: rat where "q' = 2 powi (ilog2 x - 53)"
  have q: "q = 2 * q'"
    using pow2_succ [of "ilog2 x - 53"] by (simp add: q_def q'_def algebra_simps)
  have q': "0 < q'" by (simp add: q'_def)
  have "ilog2 (x / 2) - 52 = ilog2 x - 53" using ilog2_half [OF assms] by simp
  then have "fl (x / 2) = of_int (rne (x / 2 / q')) * q'"
    using fl_pos_unfold [OF h] by (simp only: q'_def)
  also have "x / 2 / q' = x / q" by (simp add: q)
  finally have "fl (x / 2) = of_int (rne (x / q)) * q / 2" by (simp add: q)
  then show ?thesis using fl_pos_unfold [OF assms] by (simp add: q_def)
qed

lemma fl_centre:
  assumes "0 \<le> d"
  shows "0 \<le> fl (fl d / 2)" and "fl (fl d / 2) \<le> d" and "fl (fl d / 2) = fl d / 2"
proof -
  have "0 \<le> fl (fl d / 2) \<and> fl (fl d / 2) \<le> d \<and> fl (fl d / 2) = fl d / 2"
  proof (cases "d = 0")
    case True
    then show ?thesis by simp
  next
    case False
    then have d: "0 < d" using assms by simp
    have "fl (fl d / 2) = fl (fl d) / 2" using fl_pos [OF d] by (rule fl_half)
    then have e: "fl (fl d / 2) = fl d / 2" by (simp only: fl_idem [OF d])
    show ?thesis using e fl_pos [OF d] fl_le_double [OF d] by simp
  qed
  then show "0 \<le> fl (fl d / 2)" and "fl (fl d / 2) \<le> d" and "fl (fl d / 2) = fl d / 2"
    by simp_all
qed

lemma fl_round_down:
  assumes "0 < t" and "fl t = t" and "t < x" and "fl x \<le> t"
  shows "x - t \<le> 2 powi (ilog2 t - 53)"
proof -
  have x: "0 < x" using assms by simp
  have "t \<le> fl x" using assms by (intro fl_lower) simp_all
  then have fx: "fl x = t" using assms(4) by simp
  have le: "ilog2 t \<le> ilog2 x" using assms by (intro ilog2_mono) simp_all
  have eq: "ilog2 x = ilog2 t"
  proof (rule ccontr)
    assume "ilog2 x \<noteq> ilog2 t"
    then have "ilog2 t + 1 \<le> ilog2 x" using le by simp
    then have "(2::rat) powi (ilog2 t + 1) \<le> 2 powi (ilog2 x)"
      by (intro power_int_increasing) simp_all
    then show False
      using fl_bounds(1) [OF x] ilog2_bounds(2) [OF assms(1)] fx by linarith
  qed
  let ?q = "(2::rat) powi (ilog2 t - 52)"
  have q: "0 < ?q" by simp
  have "of_int (rne (x / ?q)) * ?q = t" using fl_pos_unfold [OF x] fx eq by simp
  then have "of_int (rne (x / ?q)) = t / ?q" by (simp add: field_simps)
  then have "x / ?q - t / ?q \<le> 1 / 2" using rne_near [of "x / ?q"] by simp
  then have "(x - t) / ?q \<le> 1 / 2" by (simp add: diff_divide_distrib)
  then have "x - t \<le> 1 / 2 * ?q" using q by (simp add: pos_divide_le_eq)
  also have "?q = 2 * 2 powi (ilog2 t - 53)"
    using pow2_succ [of "ilog2 t - 53"] by (simp add: algebra_simps)
  finally show ?thesis by simp
qed

lemma fl_rel_above:
  assumes "0 < r" and "fl r = r" and "r \<le> x" and "x \<le> r * (1 + 1 / (2 ^ 54 - 1))"
  shows "fl x = r"
proof -
  have x: "0 < x" using assms by simp
  let ?q = "(2::rat) powi (ilog2 r - 52)"
  define N where "N = rne (r / ?q)"
  have q: "0 < ?q" by simp
  have rN: "r / ?q = of_int N" unfolding N_def using fl_fixed_scaled [OF assms(1,2)] .
  have "(of_int N :: rat) < of_int (2 ^ 53)"
    using scaled_bounds(2) [OF assms(1)] rN by simp
  then have "N < 2 ^ 53" by (simp only: of_int_less_iff)
  then have "N \<le> 2 ^ 53 - 1" by simp
  then have "(of_int N :: rat) \<le> of_int (2 ^ 53 - 1)" by (simp only: of_int_le_iff)
  then have Nle: "(of_int N :: rat) \<le> 2 ^ 53 - 1" by simp
  have "x / ?q \<le> r * (1 + 1 / (2 ^ 54 - 1)) / ?q"
    using assms(4) by (rule divide_right_mono) simp
  also have "\<dots> = r / ?q * (1 + 1 / (2 ^ 54 - 1))" by simp
  also have "\<dots> = of_int N + of_int N / (2 ^ 54 - 1)" by (simp only: rN) (simp add: algebra_simps)
  finally have "x / ?q \<le> of_int N + of_int N / (2 ^ 54 - 1)" .
  moreover have "of_int N / (2 ^ 54 - 1) < (1 / 2 :: rat)"
  proof -
    have "(of_int N :: rat) / (2 ^ 54 - 1) \<le> (2 ^ 53 - 1) / (2 ^ 54 - 1)"
      using Nle by (rule divide_right_mono) simp
    also have "\<dots> < (1 / 2 :: rat)" by simp
    finally show ?thesis .
  qed
  ultimately have up: "x / ?q < of_int N + 1 / 2" by linarith
  have "r / ?q \<le> x / ?q" using assms(3) by (rule divide_right_mono) simp
  then have low: "of_int N \<le> x / ?q" by (simp only: rN)
  have rn: "rne (x / ?q) = N" using low up by (rule rne_below_half)
  have "x < (of_int N + 1 / 2) * ?q" using up q by (simp add: pos_divide_less_eq)
  also have "\<dots> \<le> 2 ^ 53 * ?q" using Nle q by (intro mult_right_mono) simp_all
  also have "\<dots> = 2 powi (ilog2 r + 1)"
    using pow2_succ [of "ilog2 r"] pow2_split [of "ilog2 r"] by simp
  finally have "x < 2 powi (ilog2 r + 1)" .
  moreover have "2 powi (ilog2 r) \<le> x" using ilog2_bounds(1) [OF assms(1)] assms(3) by simp
  ultimately have il: "ilog2 x = ilog2 r" by (intro ilog2_unique)
  have "fl x = of_int N * ?q" using fl_pos_unfold [OF x] il rn by simp
  also have "\<dots> = r / ?q * ?q" by (simp only: rN)
  also have "\<dots> = r" by simp
  finally show ?thesis .
qed

subsection \<open>Crop arithmetic in doubles\<close>

lemma exact_ratio_no_round_down:
  fixes p q W H :: nat
  assumes "0 < q" and "0 < H" and "p * H < 2 ^ 53"
    and lo: "(of_nat p / of_nat q :: rat) < of_nat W / of_nat H"
    and hi: "(of_nat W / of_nat H :: rat) \<le> of_nat p / of_nat q * (1 + 1 / 2 ^ 53)"
  shows False
proof -
  have q: "(0::rat) < of_nat q" and H: "(0::rat) < of_nat H" using assms by simp_all
  have "(of_nat p :: rat) * of_nat H < of_nat W * of_nat q"
    using lo q H by (simp add: divide_less_eq pos_less_divide_eq mult.commute split: if_splits)
  then have "(of_nat (p * H) :: rat) < of_nat (q * W)" by (simp add: mult.commute)
  then have "p * H < q * W" by (simp only: of_nat_less_iff)
  then have "p * H + 1 \<le> q * W" by simp
  then have "(of_nat (p * H + 1) :: rat) \<le> of_nat (q * W)" by (simp only: of_nat_le_iff)
  then have 1: "(of_nat p :: rat) * of_nat H + 1 \<le> of_nat q * of_nat W" by simp
  have "(of_nat W :: rat) \<le> of_nat p / of_nat q * (1 + 1 / 2 ^ 53) * of_nat H"
    using hi H by (simp add: pos_divide_le_eq)
  then have "(of_nat q :: rat) * of_nat W \<le> of_nat q * (of_nat p / of_nat q * (1 + 1 / 2 ^ 53) * of_nat H)"
    using q by (intro mult_left_mono) simp_all
  also have "\<dots> = of_nat p * of_nat H * (1 + 1 / 2 ^ 53)" using q by simp
  also have "\<dots> = of_nat p * of_nat H + of_nat (p * H) / 2 ^ 53" by (simp add: algebra_simps)
  finally have 2: "(of_nat q :: rat) * of_nat W \<le> of_nat p * of_nat H + of_nat (p * H) / 2 ^ 53" .
  have "(of_nat (p * H) :: rat) < of_nat (2 ^ 53)" using assms(3) by (simp only: of_nat_less_iff)
  then have "(of_nat (p * H) :: rat) < 2 ^ 53" by (simp only: of_nat_power of_nat_numeral)
  then have 3: "(of_nat (p * H) :: rat) / 2 ^ 53 < 1" by simp
  show False using 1 2 3 by linarith
qed


lemma rounded_ratio_quotient:
  fixes p q W H :: nat
  assumes "0 < q" and "0 < H" and "p * H < 2 ^ 53"
    and lo: "(of_nat p / of_nat q * (1 - 1 / 2 ^ 54) :: rat) < of_nat W / of_nat H"
    and hi: "(of_nat W / of_nat H :: rat) \<le>
             of_nat p / of_nat q * (1 - 1 / 2 ^ 54) * (1 + 1 / 2 ^ 53)"
  shows "q * W = p * H"
proof -
  have q: "(0::rat) < of_nat q" and H: "(0::rat) < of_nat H" using assms by simp_all
  define a :: rat where "a = of_nat (p * H)"
  define b :: rat where "b = of_nat (q * W)"
  have a0: "0 \<le> a" by (simp add: a_def)
  have "(of_nat (p * H) :: rat) < of_nat (2 ^ 53)" using assms(3) by (simp only: of_nat_less_iff)
  then have a53: "a < 2 ^ 53" by (simp only: a_def of_nat_power of_nat_numeral)
  have "of_nat p / of_nat q * (1 - 1 / 2 ^ 54) * of_nat H < (of_nat W :: rat)"
    using lo H by (simp add: pos_less_divide_eq)
  then have "of_nat q * (of_nat p / of_nat q * (1 - 1 / 2 ^ 54) * of_nat H) < of_nat q * (of_nat W :: rat)"
    using q by (intro mult_strict_left_mono) simp_all
  also have "of_nat q * (of_nat p / of_nat q * (1 - 1 / 2 ^ 54) * of_nat H) = a * (1 - 1 / 2 ^ 54)"
    using q by (simp add: a_def)
  finally have 1: "a * (1 - 1 / 2 ^ 54) < b" by (simp add: b_def)
  have "(of_nat W :: rat) \<le> of_nat p / of_nat q * (1 - 1 / 2 ^ 54) * (1 + 1 / 2 ^ 53) * of_nat H"
    using hi H by (simp add: pos_divide_le_eq)
  then have "of_nat q * (of_nat W :: rat) \<le>
             of_nat q * (of_nat p / of_nat q * (1 - 1 / 2 ^ 54) * (1 + 1 / 2 ^ 53) * of_nat H)"
    using q by (intro mult_left_mono) simp_all
  also have "\<dots> = a * ((1 - 1 / 2 ^ 54) * (1 + 1 / 2 ^ 53))"
    using q by (simp add: a_def)
  finally have 2: "b \<le> a * ((1 - 1 / 2 ^ 54) * (1 + 1 / 2 ^ 53))" by (simp add: b_def)
  have "a * (1 - 1 / 2 ^ 54) = a - a / 2 ^ 54" by (simp add: algebra_simps)
  moreover have "a / 2 ^ 54 < 1" using a53 by simp
  ultimately have "a - 1 < b" using 1 by linarith
  then have "(of_nat (p * H) :: rat) < of_nat (q * W + 1)" by (simp add: a_def b_def)
  then have le1: "p * H < q * W + 1" by (simp only: of_nat_less_iff)
  have "a * ((1 - 1 / 2 ^ 54) * (1 + 1 / 2 ^ 53)) \<le> a * (1 + 1 / 2 ^ 53)"
    using a0 by (intro mult_left_mono) simp_all
  also have "\<dots> = a + a / 2 ^ 53" by (simp add: algebra_simps)
  also have "\<dots> < a + 1" using a53 by simp
  finally have "b < a + 1" using 2 by linarith
  then have "(of_nat (q * W) :: rat) < of_nat (p * H + 1)" by (simp add: a_def b_def)
  then have le2: "q * W < p * H + 1" by (simp only: of_nat_less_iff)
  show ?thesis using le1 le2 by simp
qed

lemma rounded_ratio_height:
  fixes p q W H :: nat and c :: rat
  assumes "0 < p" and "0 < q" and "1 < c" and "q * W = p * H"
  shows "of_nat W / (of_nat p / of_nat q * (1 - 1 / c)) = of_nat H * (1 + 1 / (c - 1))"
proof -
  have "(of_nat (q * W) :: rat) = of_nat (p * H)" using assms(4) by simp
  then have e: "(of_nat q :: rat) * of_nat W = of_nat p * of_nat H" by simp
  have p: "(of_nat p :: rat) \<noteq> 0" and q: "(of_nat q :: rat) \<noteq> 0" using assms by simp_all
  have c: "c \<noteq> 0" "c - 1 \<noteq> 0" using assms(3) by simp_all
  have k: "1 - 1 / c = (c - 1) / c" using c by (simp add: field_simps)
  have "of_nat W / (of_nat p / of_nat q * (1 - 1 / c)) =
        (of_nat q * of_nat W) / (of_nat p * (1 - 1 / c))"
    using q by simp
  also have "\<dots> = of_nat p * of_nat H / (of_nat p * (1 - 1 / c))" by (simp only: e)
  also have "\<dots> = of_nat H / (1 - 1 / c)" using p by simp
  also have "\<dots> = of_nat H * (c / (c - 1))" by (simp only: k) simp
  also have "c / (c - 1) = 1 + 1 / (c - 1)" using c by (simp add: field_simps)
  finally show ?thesis .
qed

lemma targetRatio_values:
  "fl (1 / 1) = 1" "fl (3 / 4) = 3 / 4" "fl (9 / 16) = 9 / 16"
  "fl (16 / 9) = 16 / 9 * (1 - 1 / 2 ^ 54)" "fl (4 / 3) = 4 / 3 * (1 - 1 / 2 ^ 54)"
  by code_simp+


lemma fl_round_down_rel:
  assumes "0 < t" and "fl t = t" and "t < x" and "fl x \<le> t"
  shows "x \<le> t * (1 + 1 / 2 ^ 53)"
proof -
  have "(2::rat) powi (ilog2 t) = 2 powi (53 + (ilog2 t - 53))" by simp
  also have "\<dots> = 2 powi 53 * 2 powi (ilog2 t - 53)" by (subst power_int_add) simp_all
  finally have "2 powi (ilog2 t - 53) = (2::rat) powi (ilog2 t) / 2 ^ 53" by simp
  also have "\<dots> \<le> t / 2 ^ 53"
    using ilog2_bounds(1) [OF assms(1)] by (intro divide_right_mono) simp_all
  finally have "x - t \<le> t / 2 ^ 53" using fl_round_down [OF assms] by linarith
  then show ?thesis by (simp add: algebra_simps)
qed

lemma wide_width_le:
  fixes W H :: nat
  assumes "0 < H" and "W < 2 ^ 53" and "0 < t" and "fl t = t"
    and "t < fl (of_nat W / of_nat H)"
  shows "fl (of_nat H * t) \<le> of_nat W"
proof -
  have W: "0 < W" using assms(3,5) by (cases "W = 0") simp_all
  have H: "(0::rat) < of_nat H" using assms(1) by simp
  have x: "(0::rat) < of_nat W / of_nat H" using W H by simp
  have "\<not> of_nat W / of_nat H \<le> t"
    using fl_upper [OF x _ assms(4)] assms(5) by auto
  then have "t * of_nat H < of_nat W" using H by (simp add: pos_less_divide_eq not_le)
  then have le: "of_nat H * t \<le> of_nat W" by (simp add: mult.commute)
  have pos: "0 < of_nat H * t" using H assms(3) by simp
  show ?thesis using pos le fl_of_nat [OF assms(2)] by (rule fl_upper)
qed

lemma tall_height_le:
  fixes W H :: nat
  assumes split: "ratio_split ratio = Some (rw, rh)"
    and "0 < H" and "H < 2 ^ 32" and "W < 2 ^ 32"
    and tall: "\<not> fl (of_nat rw / of_nat rh) < fl (of_nat W / of_nat H)"
  shows "fl (of_nat W / fl (of_nat rw / of_nat rh)) \<le> of_nat H"
proof (cases "W = 0")
  case True
  then show ?thesis by simp
next
  case False
  define t where "t = fl (of_nat rw / of_nat rh)"
  have r: "(0::rat) < of_nat rw / of_nat rh" using ratio_split_pos [OF split] by simp
  have t: "0 < t" unfolding t_def using r by (rule fl_pos)
  have ft: "fl t = t" unfolding t_def using r by (rule fl_idem)
  have H: "(0::rat) < of_nat H" using assms(2) by simp
  have W: "(0::rat) < of_nat W" using False by simp
  have H53: "H < 2 ^ 53" using assms(3) by simp
  have fH: "fl (of_nat H) = of_nat H" using H53 by (rule fl_of_nat)
  have x: "0 < of_nat W / t" using W t by simp
  show ?thesis
  proof (cases "of_nat W / of_nat H \<le> t")
    case True
    then have "of_nat W \<le> t * of_nat H" using H by (simp add: pos_divide_le_eq)
    then have "of_nat W / t \<le> of_nat H" using t by (simp add: pos_divide_le_eq mult.commute)
    then show ?thesis unfolding t_def [symmetric] using x fH by (intro fl_upper)
  next
    case False
    then have lo: "t < of_nat W / of_nat H" by simp
    have "fl (of_nat W / of_nat H) \<le> t" using tall by (simp add: t_def)
    from fl_round_down_rel [OF t ft lo this]
    have hi: "of_nat W / of_nat H \<le> t * (1 + 1 / 2 ^ 53)" .
    have b16: "16 * H < 2 ^ 53" and b4: "4 * H < 2 ^ 53" and b9: "9 * H < 2 ^ 53"
      and b3: "3 * H < 2 ^ 53" and b1: "1 * H < 2 ^ 53"
      using assms(3) by simp_all
    show ?thesis
    proof (cases ratio)
      case Original
      then show ?thesis using split by simp
    next
      case R1_1
      then have tv: "t = of_nat 1 / of_nat 1"
        using split targetRatio_values(1) by (auto simp: t_def)
      show ?thesis
        using exact_ratio_no_round_down [OF _ assms(2) b1 lo [unfolded tv] hi [unfolded tv]]
        by simp
    next
      case R3_4
      then have tv: "t = of_nat 3 / of_nat 4"
        using split targetRatio_values(2) by (auto simp: t_def)
      show ?thesis
        using exact_ratio_no_round_down [OF _ assms(2) b3 lo [unfolded tv] hi [unfolded tv]]
        by simp
    next
      case R9_16
      then have tv: "t = of_nat 9 / of_nat 16"
        using split targetRatio_values(3) by (auto simp: t_def)
      show ?thesis
        using exact_ratio_no_round_down [OF _ assms(2) b9 lo [unfolded tv] hi [unfolded tv]]
        by simp
    next
      case R16_9
      then have tv: "t = of_nat 16 / of_nat 9 * (1 - 1 / 2 ^ 54)"
        using split targetRatio_values(4) by (auto simp: t_def)
      have "9 * W = 16 * H"
        using rounded_ratio_quotient [OF _ assms(2) b16 lo [unfolded tv] hi [unfolded tv]]
        by simp
      from rounded_ratio_height [OF _ _ _ this, of "2 ^ 54"]
      have e: "of_nat W / t = of_nat H * (1 + 1 / (2 ^ 54 - 1))" by (simp add: tv)
      have "fl (of_nat W / t) = of_nat H"
        using H fH by (rule fl_rel_above) (simp_all add: e)
      then show ?thesis by (simp add: t_def)
    next
      case R4_3
      then have tv: "t = of_nat 4 / of_nat 3 * (1 - 1 / 2 ^ 54)"
        using split targetRatio_values(5) by (auto simp: t_def)
      have "3 * W = 4 * H"
        using rounded_ratio_quotient [OF _ assms(2) b4 lo [unfolded tv] hi [unfolded tv]]
        by simp
      from rounded_ratio_height [OF _ _ _ this, of "2 ^ 54"]
      have e: "of_nat W / t = of_nat H * (1 + 1 / (2 ^ 54 - 1))" by (simp add: tv)
      have "fl (of_nat W / t) = of_nat H"
        using H fH by (rule fl_rel_above) (simp_all add: e)
      then show ?thesis by (simp add: t_def)
    qed
  qed
qed

lemma fl_small_values:
  "fl 1 = 1" "fl 2 = 2" "fl (1 / 2) = 1 / 2" "fl 250 = 250" "fl 500 = 500"
  by code_simp+

lemma fl_wide_example:
  "fl (16 / 9) < fl (7 / 3)"
  "fl (3 * fl (16 / 9)) = 6004799503160661 / 2 ^ 50"
  "fl (fl (7 - 6004799503160661 / 2 ^ 50) / 2) = 1876499844737707 / 2 ^ 51"
  by code_simp+

lemma fl_thin_example:
  "fl (16 / 9) < fl 10"
  "fl (fl (16 / 9)) = 2001599834386887 / 2 ^ 50"
  "fl (fl (10 - 2001599834386887 / 2 ^ 50) / 2) = 1157174904254919 / 2 ^ 48"
  by code_simp+


subsection \<open>History handlers\<close>

lemma EditorState_eq_iff:
  fixes a b :: EditorState
  shows "a = b \<longleftrightarrow>
         brightness a = brightness b \<and> contrast a = contrast b \<and>
         rotation a = rotation b \<and> cropRatio a = cropRatio b"
  by (cases a, cases b) auto

lemma current_SomeD:
  assumes "current s = Some c"
  shows "0 \<le> currentIndex s \<and> currentIndex s < int (length (history s)) \<and>
         c = history s ! nat (currentIndex s)"
  using assms by (auto simp: current_def js_index_def split: if_splits)

lemma js_slice0_in_range:
  assumes "0 \<le> i" and "i < int (length xs)"
  shows "js_slice0 xs (i + 1) = take (nat i + 1) xs"
  using assms by (simp add: js_slice0_def nat_add_distrib)

lemma length_js_slice0_in_range:
  assumes "0 \<le> i" and "i < int (length xs)"
  shows "int (length (js_slice0 xs (i + 1) @ [x])) - 1 = i + 1"
  using assms by (simp add: js_slice0_in_range)

lemma addToHistory_same:
  assumes "current s = Some c"
  shows "addToHistory c s = Done s"
  using assms by (simp add: addToHistory_def current_def)

lemma addToHistory_new:
  assumes "current s = Some c" and "n \<noteq> c"
  shows "addToHistory n s =
         Done (s\<lparr>history := take (nat (currentIndex s) + 1) (history s) @ [n],
                 currentIndex := currentIndex s + 1\<rparr>)"
proof -
  from current_SomeD [OF assms(1)]
  have rng: "0 \<le> currentIndex s" "currentIndex s < int (length (history s))" by simp_all
  have cur: "js_index (history s) (currentIndex s) = Some c"
    using assms(1) by (simp add: current_def)
  have ne: "\<not> (brightness c = brightness n \<and> contrast c = contrast n \<and>
               rotation c = rotation n \<and> cropRatio c = cropRatio n)"
    using assms(2) EditorState_eq_iff [of c n] by auto
  have "addToHistory n s =
        Done (s\<lparr>history := js_slice0 (history s) (currentIndex s + 1) @ [n],
                currentIndex :=
                  int (length (js_slice0 (history s) (currentIndex s + 1) @ [n])) - 1\<rparr>)"
    unfolding addToHistory_def Let_def cur option.case using ne by (rule if_not_P)
  also have "int (length (js_slice0 (history s) (currentIndex s + 1) @ [n])) - 1 =
             currentIndex s + 1"
    using rng by (rule length_js_slice0_in_range)
  also have "js_slice0 (history s) (currentIndex s + 1) =
             take (nat (currentIndex s) + 1) (history s)"
    using rng by (rule js_slice0_in_range)
  finally show ?thesis .
qed

lemma js_index_in_range:
  assumes "0 \<le> i" and "i < int (length xs)"
  shows "js_index xs i = Some (xs ! nat i)"
  using assms by (simp add: js_index_def)

lemma handleUndo_at_start:
  assumes "currentIndex s \<le> 0"
  shows "handleUndo s = Done s"
  using assms by (simp add: handleUndo_def)

lemma handleUndo_step:
  assumes "0 < currentIndex s" and "currentIndex s \<le> int (length (history s))"
  shows "handleUndo s =
         Done (s\<lparr>currentIndex := currentIndex s - 1,
                 brightness := brightness (history s ! nat (currentIndex s - 1)),
                 contrast := contrast (history s ! nat (currentIndex s - 1)),
                 rotation := rotation (history s ! nat (currentIndex s - 1)),
                 cropRatio := cropRatio (history s ! nat (currentIndex s - 1))\<rparr>)"
proof -
  have "js_index (history s) (currentIndex s - 1) = Some (history s ! nat (currentIndex s - 1))"
    using assms by (intro js_index_in_range) simp_all
  then show ?thesis using assms(1) by (simp add: handleUndo_def applyState_def Let_def)
qed

lemma handleRedo_at_end:
  assumes "int (length (history s)) - 1 \<le> currentIndex s"
  shows "handleRedo s = Done s"
  using assms by (simp add: handleRedo_def)

lemma handleRedo_step:
  assumes "-1 \<le> currentIndex s" and "currentIndex s < int (length (history s)) - 1"
  shows "handleRedo s =
         Done (s\<lparr>currentIndex := currentIndex s + 1,
                 brightness := brightness (history s ! nat (currentIndex s + 1)),
                 contrast := contrast (history s ! nat (currentIndex s + 1)),
                 rotation := rotation (history s ! nat (currentIndex s + 1)),
                 cropRatio := cropRatio (history s ! nat (currentIndex s + 1))\<rparr>)"
proof -
  have "js_index (history s) (currentIndex s + 1) = Some (history s ! nat (currentIndex s + 1))"
    using assms by (intro js_index_in_range) simp_all
  then show ?thesis using assms(2) by (simp add: handleRedo_def applyState_def Let_def)
qed

lemma history_ok_current:
  assumes "history_ok s"
  shows "current s = Some (history s ! nat (currentIndex s))"
  using assms by (simp add: history_ok_def current_def js_index_def)

lemma history_ok_commit:
  fixes s :: editor
  assumes "history_ok s"
  shows "\<exists>s'. addToHistory n s = Done s' \<and> history_ok s' \<and> hasAutosave s' = hasAutosave s"
proof (cases "n = history s ! nat (currentIndex s)")
  case True
  then show ?thesis using assms addToHistory_same [OF history_ok_current [OF assms]] by simp
next
  case False
  have rng: "0 \<le> currentIndex s" "currentIndex s < int (length (history s))"
    and first: "history s ! 0 = INITIAL_STATE"
    using assms by (auto simp: history_ok_def js_index_def split: if_splits)
  define h where "h = take (nat (currentIndex s) + 1) (history s) @ [n]"
  have "nat (currentIndex s) + 1 \<le> length (history s)"
    using rng by linarith
  then have "length h = nat (currentIndex s) + 2"
    by (simp add: h_def min_absorb2)
  then have len: "int (length h) = currentIndex s + 2"
    using rng by simp
  have h0: "h ! 0 = INITIAL_STATE"
    using rng first by (simp add: h_def nth_append)
  have "js_index h 0 = Some INITIAL_STATE"
    using len rng h0 by (simp add: js_index_def)
  then have "history_ok (s\<lparr>history := h, currentIndex := currentIndex s + 1\<rparr>)"
    using len rng by (simp add: history_ok_def)
  then show ?thesis
    using addToHistory_new [OF history_ok_current [OF assms] False]
    by (simp add: h_def)
qed

lemma history_ok_live:
  fixes s :: editor
  assumes "history_ok s"
  shows "history_ok (s\<lparr>brightness := b\<rparr>)" and "history_ok (s\<lparr>contrast := c\<rparr>)"
    and "history_ok (s\<lparr>rotation := r\<rparr>)" and "history_ok (s\<lparr>cropRatio := q\<rparr>)"
  using assms by (simp_all add: history_ok_def)

lemma history_ok_handle:
  assumes "history_ok s"
  shows "\<exists>s'. handle ev s = Done s' \<and> history_ok s'"
proof (cases ev)
  case (SetBrightness v)
  then show ?thesis using history_ok_live(1) [OF assms] by simp
next
  case (SetContrast v)
  then show ?thesis using history_ok_live(2) [OF assms] by simp
next
  case CommitSlider
  then show ?thesis using history_ok_commit [OF assms] by (auto simp: commitSliderChange_def)
next
  case Rotate
  then show ?thesis
    using history_ok_commit [OF history_ok_live(3) [OF assms]]
    by (auto simp: handleRotate_def Let_def)
next
  case (CropChange ratio)
  then show ?thesis
    using history_ok_commit [OF history_ok_live(4) [OF assms]]
    by (auto simp: handleCropChange_def)
next
  case Undo
  show ?thesis
  proof (cases "currentIndex s \<le> 0")
    case True
    then show ?thesis using Undo assms handleUndo_at_start by simp
  next
    case False
    then have "handleUndo s = Done (s\<lparr>currentIndex := currentIndex s - 1,
                 brightness := brightness (history s ! nat (currentIndex s - 1)),
                 contrast := contrast (history s ! nat (currentIndex s - 1)),
                 rotation := rotation (history s ! nat (currentIndex s - 1)),
                 cropRatio := cropRatio (history s ! nat (currentIndex s - 1))\<rparr>)"
      using assms by (intro handleUndo_step) (simp_all add: history_ok_def)
    then show ?thesis using Undo assms False by (simp add: history_ok_def)
  qed
next
  case Redo
  show ?thesis
  proof (cases "int (length (history s)) - 1 \<le> currentIndex s")
    case True
    then show ?thesis using Redo assms handleRedo_at_end by simp
  next
    case False
    then have "handleRedo s = Done (s\<lparr>currentIndex := currentIndex s + 1,
                 brightness := brightness (history s ! nat (currentIndex s + 1)),
                 contrast := contrast (history s ! nat (currentIndex s + 1)),
                 rotation := rotation (history s ! nat (currentIndex s + 1)),
                 cropRatio := cropRatio (history s ! nat (currentIndex s + 1))\<rparr>)"
      using assms by (intro handleRedo_step) (simp_all add: history_ok_def)
    then show ?thesis using Redo assms False by (simp add: history_ok_def)
  qed
next
  case Reset
  then show ?thesis
    by (simp add: handleReset_def applyState_def history_ok_def js_index_def)
qed

lemma history_ok_initial: "history_ok initial_editor"
  by (simp add: history_ok_def initial_editor_def js_index_def)

lemma history_ok_run:
  assumes "history_ok s"
  shows "history_ok (run evs s)"
  using assms
proof (induction evs arbitrary: s)
  case Nil
  then show ?case by simp
next
  case (Cons ev evs)
  from history_ok_handle [OF Cons.prems]
  obtain s' where "handle ev s = Done s'" and "history_ok s'" by blast
  then show ?case using Cons.IH by simp
qed

subsection \<open>Crop geometry\<close>

text \<open>
  Claim C1, as amended. For a crop ratio \<open>rw:rh\<close> other than the original one and a rotated
  buffer of width \<open>W\<close> and height \<open>H\<close>, with every operation rounded to the nearest double:
  the target ratio is \<open>t = fl (rw/rh)\<close>; when \<open>fl (W/H) > t\<close> the crop has width
  \<open>fl (H * t)\<close> and height \<open>H\<close>, otherwise width \<open>W\<close> and height \<open>fl (W / t)\<close>; the offsets
  are \<open>x = fl (fl (W - width) / 2)\<close> and \<open>y = fl (fl (H - height) / 2)\<close>. For a buffer of
  height 0 the quotient \<open>W/H\<close> is infinite or not a number and the crop is empty. A 1000
  by 500 buffer with ratio 1:1 gives exactly width 500, height 500, x 250, y 0, and a 500
  by 1000 buffer exactly width 500, height 500, x 0, y 250.
\<close>

theorem crop_geometry:
  "(\<forall>W H ratio rw rh. ratio_split ratio = Some (rw, rh) \<longrightarrow>
      (0 < H \<longrightarrow>
         getCropDimensions W H ratio =
           (if fl (of_nat rw / of_nat rh) < fl (of_nat W / of_nat H)
            then \<lparr>crop_width = fl (of_nat H * fl (of_nat rw / of_nat rh)),
                  crop_height = of_nat H,
                  crop_x = fl (fl (of_nat W - fl (of_nat H * fl (of_nat rw / of_nat rh))) / 2),
                  crop_y = 0\<rparr>
            else \<lparr>crop_width = of_nat W,
                  crop_height = fl (of_nat W / fl (of_nat rw / of_nat rh)),
                  crop_x = 0,
                  crop_y = fl (fl (of_nat H - fl (of_nat W / fl (of_nat rw / of_nat rh))) / 2)\<rparr>)) \<and>
      (H = 0 \<longrightarrow>
         getCropDimensions W H ratio =
           \<lparr>crop_width = 0, crop_height = 0, crop_x = fl (fl (of_nat W) / 2), crop_y = 0\<rparr>)) \<and>
   getCropDimensions 1000 500 R1_1 =
     \<lparr>crop_width = 500, crop_height = 500, crop_x = 250, crop_y = 0\<rparr> \<and>
   getCropDimensions 500 1000 R1_1 =
     \<lparr>crop_width = 500, crop_height = 500, crop_x = 0, crop_y = 250\<rparr>"
proof -
  have e1: "getCropDimensions 1000 500 R1_1 =
     \<lparr>crop_width = 500, crop_height = 500, crop_x = 250, crop_y = 0\<rparr>"
    by (simp add: getCropDimensions_def currentRatio_gt_def fl_small_values)
  have e2: "getCropDimensions 500 1000 R1_1 =
     \<lparr>crop_width = 500, crop_height = 500, crop_x = 0, crop_y = 250\<rparr>"
    by (simp add: getCropDimensions_def currentRatio_gt_def fl_small_values)
  have g: "\<forall>W H ratio rw rh. ratio_split ratio = Some (rw, rh) \<longrightarrow>
      (0 < H \<longrightarrow>
         getCropDimensions W H ratio =
           (if fl (of_nat rw / of_nat rh) < fl (of_nat W / of_nat H)
            then \<lparr>crop_width = fl (of_nat H * fl (of_nat rw / of_nat rh)),
                  crop_height = of_nat H,
                  crop_x = fl (fl (of_nat W - fl (of_nat H * fl (of_nat rw / of_nat rh))) / 2),
                  crop_y = 0\<rparr>
            else \<lparr>crop_width = of_nat W,
                  crop_height = fl (of_nat W / fl (of_nat rw / of_nat rh)),
                  crop_x = 0,
                  crop_y = fl (fl (of_nat H - fl (of_nat W / fl (of_nat rw / of_nat rh))) / 2)\<rparr>)) \<and>
      (H = 0 \<longrightarrow>
         getCropDimensions W H ratio =
           \<lparr>crop_width = 0, crop_height = 0, crop_x = fl (fl (of_nat W) / 2), crop_y = 0\<rparr>)"
    by (simp add: getCropDimensions_def currentRatio_gt_def Let_def)
  show ?thesis using g e1 e2 by (intro conjI)
qed

theorem crop_geometry_witness:
  "ratio_split R16_9 = Some (16, 9) \<and> (0::nat) < 3 \<and>
   fl (16 / 9) < fl (7 / 3) \<and>
   getCropDimensions 7 3 R16_9 =
     \<lparr>crop_width = fl (3 * fl (16 / 9)), crop_height = 3,
      crop_x = fl (fl (7 - fl (3 * fl (16 / 9))) / 2), crop_y = 0\<rparr>"
  using crop_geometry fl_wide_example(1) by simp

text \<open>
  The claim as written gives the width as \<open>H * (rw/rh)\<close> and the offset as
  \<open>(W - width)/2\<close>. For a 7 by 3 buffer and the ratio 16:9 the code returns the doubles
  5.333333333333333 and 0.8333333333333335, which are not 16/3 and 5/6.
\<close>

theorem crop_width_counterexample:
  "crop_width (getCropDimensions 7 3 R16_9) = 6004799503160661 / 2 ^ 50 \<and>
   crop_width (getCropDimensions 7 3 R16_9) \<noteq> 3 * (16 / 9) \<and>
   crop_x (getCropDimensions 7 3 R16_9) = 1876499844737707 / 2 ^ 51 \<and>
   crop_x (getCropDimensions 7 3 R16_9) \<noteq> (7 - 3 * (16 / 9)) / 2"
proof -
  have g: "getCropDimensions 7 3 R16_9 =
     \<lparr>crop_width = fl (3 * fl (16 / 9)), crop_height = 3,
      crop_x = fl (fl (7 - fl (3 * fl (16 / 9))) / 2), crop_y = 0\<rparr>"
    by (simp add: getCropDimensions_def currentRatio_gt_def Let_def fl_wide_example(1))
  show ?thesis
    unfolding g crop.simps fl_wide_example(2) fl_wide_example(3) by simp
qed

text \<open>
  Claim C8, as amended. For a rotated buffer of positive width and height (an image's
  dimensions are below \<open>2 ^ 32\<close>) and every crop ratio, the crop region that the code
  computes in doubles lies within the buffer: \<open>x \<ge> 0\<close>, \<open>y \<ge> 0\<close>, \<open>x + width \<le> W\<close> and
  \<open>y + height \<le> H\<close>, the sums taken exactly. It is centred up to the rounding of the
  subtraction: \<open>x\<close> is half the double nearest to \<open>W - width\<close>, and \<open>y\<close> half the double
  nearest to \<open>H - height\<close>.
\<close>

theorem crop_region_safe:
  assumes "0 < W" and "0 < H" and "W < 2 ^ 32" and "H < 2 ^ 32"
  shows "0 \<le> crop_x (getCropDimensions W H ratio) \<and>
         0 \<le> crop_y (getCropDimensions W H ratio) \<and>
         crop_x (getCropDimensions W H ratio) + crop_width (getCropDimensions W H ratio)
           \<le> of_nat W \<and>
         crop_y (getCropDimensions W H ratio) + crop_height (getCropDimensions W H ratio)
           \<le> of_nat H \<and>
         crop_x (getCropDimensions W H ratio) =
           fl (of_nat W - crop_width (getCropDimensions W H ratio)) / 2 \<and>
         crop_y (getCropDimensions W H ratio) =
           fl (of_nat H - crop_height (getCropDimensions W H ratio)) / 2"
proof (cases "ratio_split ratio")
  case None
  then show ?thesis by (simp add: getCropDimensions_def)
next
  case (Some p)
  obtain rw rh where p: "p = (rw, rh)" by (cases p)
  have split: "ratio_split ratio = Some (rw, rh)" using Some p by simp
  define t where "t = fl (of_nat rw / of_nat rh)"
  have r: "(0::rat) < of_nat rw / of_nat rh" using ratio_split_pos [OF split] by simp
  have t: "0 < t" unfolding t_def using r by (rule fl_pos)
  have ft: "fl t = t" unfolding t_def using r by (rule fl_idem)
  have W53: "W < 2 ^ 53" using assms(3) by simp
  show ?thesis
  proof (cases "t < fl (of_nat W / of_nat H)")
    case True
    define d where "d = of_nat W - fl (of_nat H * t)"
    have d: "0 \<le> d" unfolding d_def using wide_width_le [OF assms(2) W53 t ft True] by simp
    have g: "getCropDimensions W H ratio =
      \<lparr>crop_width = fl (of_nat H * t), crop_height = of_nat H,
       crop_x = fl (fl d / 2), crop_y = 0\<rparr>"
      using split True assms(2)
      by (simp add: getCropDimensions_def currentRatio_gt_def Let_def t_def d_def)
    show ?thesis
      unfolding g using fl_centre [OF d] by (simp add: d_def)
  next
    case False
    define d where "d = of_nat H - fl (of_nat W / t)"
    have "fl (of_nat W / t) \<le> of_nat H"
      unfolding t_def using split assms(2,4,3) False [unfolded t_def] by (rule tall_height_le)
    then have d: "0 \<le> d" by (simp add: d_def)
    have g: "getCropDimensions W H ratio =
      \<lparr>crop_width = of_nat W, crop_height = fl (of_nat W / t),
       crop_x = 0, crop_y = fl (fl d / 2)\<rparr>"
      using split False assms(2)
      by (simp add: getCropDimensions_def currentRatio_gt_def Let_def t_def d_def)
    show ?thesis
      unfolding g using fl_centre [OF d] by (simp add: d_def)
  qed
qed

theorem crop_region_safe_witness:
  "(0::nat) < 10 \<and> (0::nat) < 1 \<and> (10::nat) < 2 ^ 32 \<and> (1::nat) < 2 ^ 32 \<and>
   0 \<le> crop_x (getCropDimensions 10 1 R16_9) \<and>
   crop_x (getCropDimensions 10 1 R16_9) + crop_width (getCropDimensions 10 1 R16_9)
     \<le> of_nat 10 \<and>
   crop_x (getCropDimensions 10 1 R16_9) =
     fl (of_nat 10 - crop_width (getCropDimensions 10 1 R16_9)) / 2"
  using crop_region_safe [of 10 1 R16_9] by simp

text \<open>
  The claim as written has \<open>x\<close> equal to \<open>(W - width)/2\<close>. For a 10 by 1 buffer and the
  ratio 16:9 the difference \<open>10 - width\<close> is not a double, and the returned \<open>x\<close> is half
  its rounding.
\<close>

theorem crop_centring_counterexample:
  "crop_width (getCropDimensions 10 1 R16_9) = 2001599834386887 / 2 ^ 50 \<and>
   crop_x (getCropDimensions 10 1 R16_9) = 1157174904254919 / 2 ^ 48 \<and>
   crop_x (getCropDimensions 10 1 R16_9) \<noteq>
     (10 - crop_width (getCropDimensions 10 1 R16_9)) / 2"
proof -
  have g: "getCropDimensions 10 1 R16_9 =
     \<lparr>crop_width = fl (fl (16 / 9)), crop_height = 1,
      crop_x = fl (fl (10 - fl (fl (16 / 9))) / 2), crop_y = 0\<rparr>"
    using fl_thin_example(1) by (simp add: getCropDimensions_def currentRatio_gt_def Let_def)
  show ?thesis
    unfolding g crop.simps fl_thin_example(2) fl_thin_example(3) by simp
qed

subsection \<open>History\<close>

text \<open>
  Claim C2, as amended. In a history state whose index is strictly below the last position,
  committing a snapshot different from the current one truncates the sequence to the
  positions 0 to index, appends the snapshot and sets the index to the new last position.
  A redo immediately afterwards changes nothing and raises no error: the handler returns
  normally with the state as it was.
\<close>

theorem commit_truncates_branch:
  assumes "current s = Some c"
    and "currentIndex s < int (length (history s)) - 1"
    and "n \<noteq> c"
  shows "addToHistory n s =
           Done (s\<lparr>history := take (nat (currentIndex s) + 1) (history s) @ [n],
                   currentIndex := currentIndex s + 1\<rparr>) \<and>
         currentIndex s + 1 =
           int (length (take (nat (currentIndex s) + 1) (history s) @ [n])) - 1 \<and>
         handleRedo (s\<lparr>history := take (nat (currentIndex s) + 1) (history s) @ [n],
                       currentIndex := currentIndex s + 1\<rparr>) =
           Done (s\<lparr>history := take (nat (currentIndex s) + 1) (history s) @ [n],
                   currentIndex := currentIndex s + 1\<rparr>)"
proof -
  from current_SomeD [OF assms(1)]
  have rng: "0 \<le> currentIndex s" "currentIndex s < int (length (history s))" by simp_all
  have "nat (currentIndex s) + 1 \<le> length (history s)" using rng by linarith
  then have "length (take (nat (currentIndex s) + 1) (history s) @ [n]) = nat (currentIndex s) + 2"
    by (simp add: min_absorb2)
  then have len: "int (length (take (nat (currentIndex s) + 1) (history s) @ [n])) =
                  currentIndex s + 2"
    using rng by simp
  have redo: "handleRedo (s\<lparr>history := take (nat (currentIndex s) + 1) (history s) @ [n],
                       currentIndex := currentIndex s + 1\<rparr>) =
           Done (s\<lparr>history := take (nat (currentIndex s) + 1) (history s) @ [n],
                   currentIndex := currentIndex s + 1\<rparr>)"
    using len by (intro handleRedo_at_end) simp
  show ?thesis using addToHistory_new [OF assms(1,3)] len redo by simp
qed

theorem commit_truncates_branch_witness:
  "current (run [Rotate, Undo] initial_editor) = Some INITIAL_STATE \<and>
   currentIndex (run [Rotate, Undo] initial_editor)
     < int (length (history (run [Rotate, Undo] initial_editor))) - 1 \<and>
   addToHistory (INITIAL_STATE\<lparr>cropRatio := R1_1\<rparr>) (run [Rotate, Undo] initial_editor) =
     Done ((run [Rotate, Undo] initial_editor)
             \<lparr>history := [INITIAL_STATE, INITIAL_STATE\<lparr>cropRatio := R1_1\<rparr>],
              currentIndex := 1\<rparr>)"
proof -
  have st: "run [Rotate, Undo] initial_editor =
            initial_editor\<lparr>history := [INITIAL_STATE, INITIAL_STATE\<lparr>rotation := 90\<rparr>]\<rparr>"
    by (simp add: initial_editor_def INITIAL_STATE_def handleRotate_def handleUndo_def
        addToHistory_def applyState_def js_index_def js_slice0_def js_rem_def)
  have c: "current (run [Rotate, Undo] initial_editor) = Some INITIAL_STATE"
    unfolding st by (simp add: current_def js_index_def initial_editor_def)
  have i: "currentIndex (run [Rotate, Undo] initial_editor)
            < int (length (history (run [Rotate, Undo] initial_editor))) - 1"
    unfolding st by (simp add: initial_editor_def)
  have n: "INITIAL_STATE\<lparr>cropRatio := R1_1\<rparr> \<noteq> INITIAL_STATE"
    by (simp add: INITIAL_STATE_def)
  show ?thesis
    using commit_truncates_branch [OF c i n] c i
    unfolding st by (simp add: initial_editor_def)
qed

text \<open>
  The claim as written has the redo after such a commit fail with an error. After a rotate,
  an undo and a crop change, the redo handler returns normally; the guard of the handler
  skips its body and nothing is raised or reported.
\<close>

theorem commit_then_redo_counterexample:
  "handleRedo (state_of (handleCropChange R1_1 (run [Rotate, Undo] initial_editor))) =
     Done (state_of (handleCropChange R1_1 (run [Rotate, Undo] initial_editor)))"
  by (simp add: initial_editor_def INITIAL_STATE_def handleRotate_def handleUndo_def
      handleCropChange_def handleRedo_def
      addToHistory_def applyState_def js_index_def js_slice0_def js_rem_def)

text \<open>
  Claim C3. Committing a candidate equal in all four fields to the snapshot at the current
  index leaves the state, and so the history length and the index, unchanged.
\<close>

theorem commit_idempotent:
  assumes "current s = Some c"
    and "brightness n = brightness c" and "contrast n = contrast c"
    and "rotation n = rotation c" and "cropRatio n = cropRatio c"
  shows "addToHistory n s = Done s \<and>
         length (history (state_of (addToHistory n s))) = length (history s) \<and>
         currentIndex (state_of (addToHistory n s)) = currentIndex s"
proof -
  have "n = c" using assms(2-5) by (simp add: EditorState_eq_iff)
  then show ?thesis using addToHistory_same [OF assms(1)] by simp
qed

theorem commit_idempotent_witness:
  "current (run [Rotate, Undo] initial_editor) = Some INITIAL_STATE \<and>
   addToHistory INITIAL_STATE (run [Rotate, Undo] initial_editor) =
     Done (run [Rotate, Undo] initial_editor) \<and>
   length (history (run [Rotate, Undo] initial_editor)) = 2"
proof -
  have c: "current (run [Rotate, Undo] initial_editor) = Some INITIAL_STATE"
    by (simp add: initial_editor_def INITIAL_STATE_def handleRotate_def handleUndo_def
        addToHistory_def applyState_def js_index_def js_slice0_def js_rem_def current_def)
  have l: "length (history (run [Rotate, Undo] initial_editor)) = 2"
    by (simp add: initial_editor_def INITIAL_STATE_def handleRotate_def handleUndo_def
        addToHistory_def applyState_def js_index_def js_slice0_def js_rem_def current_def)
  show ?thesis using commit_idempotent [OF c, of INITIAL_STATE] c l by simp
qed

text \<open>
  Claim C4. In every state reached from the initial one by a sequence of events, with
  index above 0, an undo followed at once by a redo returns normally, leaves the history
  and the index as they were and has the same current snapshot; the live parameters are
  those of that snapshot.
\<close>

theorem undo_redo_round_trip:
  assumes "s = run evs initial_editor" and "0 < currentIndex s"
  shows "\<exists>c. current s = Some c \<and>
             and_then (handleUndo s) handleRedo =
               Done (s\<lparr>brightness := brightness c, contrast := contrast c,
                       rotation := rotation c, cropRatio := cropRatio c\<rparr>) \<and>
             history (state_of (and_then (handleUndo s) handleRedo)) = history s \<and>
             currentIndex (state_of (and_then (handleUndo s) handleRedo)) = currentIndex s \<and>
             current (state_of (and_then (handleUndo s) handleRedo)) = Some c"
proof -
  have ok: "history_ok s" using assms(1) history_ok_initial history_ok_run by simp
  then have rng: "currentIndex s < int (length (history s))" by (simp add: history_ok_def)
  define c where "c = history s ! nat (currentIndex s)"
  have cur: "current s = Some c" using history_ok_current [OF ok] by (simp add: c_def)
  define s1 where "s1 = s\<lparr>currentIndex := currentIndex s - 1,
                 brightness := brightness (history s ! nat (currentIndex s - 1)),
                 contrast := contrast (history s ! nat (currentIndex s - 1)),
                 rotation := rotation (history s ! nat (currentIndex s - 1)),
                 cropRatio := cropRatio (history s ! nat (currentIndex s - 1))\<rparr>"
  have u: "handleUndo s = Done s1"
    unfolding s1_def using assms(2) rng by (intro handleUndo_step) simp_all
  have "handleRedo s1 =
         Done (s1\<lparr>currentIndex := currentIndex s1 + 1,
                 brightness := brightness (history s1 ! nat (currentIndex s1 + 1)),
                 contrast := contrast (history s1 ! nat (currentIndex s1 + 1)),
                 rotation := rotation (history s1 ! nat (currentIndex s1 + 1)),
                 cropRatio := cropRatio (history s1 ! nat (currentIndex s1 + 1))\<rparr>)"
    using assms(2) rng by (intro handleRedo_step) (simp_all add: s1_def)
  then have r: "handleRedo s1 =
         Done (s\<lparr>brightness := brightness c, contrast := contrast c,
                 rotation := rotation c, cropRatio := cropRatio c\<rparr>)"
    by (simp add: s1_def c_def)
  have "current (s\<lparr>brightness := brightness c, contrast := contrast c,
                 rotation := rotation c, cropRatio := cropRatio c\<rparr>) = Some c"
    using cur by (simp add: current_def)
  then show ?thesis using cur u r by simp
qed

theorem undo_redo_round_trip_witness:
  "0 < currentIndex (run [SetBrightness 150, Rotate] initial_editor) \<and>
   and_then (handleUndo (run [SetBrightness 150, Rotate] initial_editor)) handleRedo =
     Done (run [SetBrightness 150, Rotate] initial_editor) \<and>
   current (run [SetBrightness 150, Rotate] initial_editor) =
     Some \<lparr>brightness = 150, contrast = 100, rotation = 90, cropRatio = Original\<rparr>"
proof -
  have st: "run [SetBrightness 150, Rotate] initial_editor =
            \<lparr>brightness = 150, contrast = 100, rotation = 90, cropRatio = Original,
             history = [INITIAL_STATE,
               \<lparr>brightness = 150, contrast = 100, rotation = 90, cropRatio = Original\<rparr>],
             currentIndex = 1, hasAutosave = False\<rparr>"
    by (simp add: initial_editor_def INITIAL_STATE_def handleRotate_def
        addToHistory_def js_index_def js_slice0_def js_rem_def)
  have i: "0 < currentIndex (run [SetBrightness 150, Rotate] initial_editor)"
    unfolding st by simp
  show ?thesis
    using undo_redo_round_trip [OF refl i] i
    unfolding st by (simp add: current_def js_index_def)
qed

text \<open>
  Claim C5, as amended. The initial state satisfies the history invariant
  (\<open>0 \<le> index < length\<close>, and the first snapshot is the default one). Every event of the
  editing controls (slider moves, commit, rotate, crop change, undo, redo, reset) returns
  normally and preserves it. Restoring copies the stored history and index unchecked: it
  preserves the invariant when the stored snapshot satisfies it, and every snapshot that
  the autosave timer writes from a state satisfying the invariant does.
\<close>

theorem history_invariant:
  "history_ok initial_editor \<and>
   (history_ok s \<longrightarrow>
      (\<exists>s'. handle ev s = Done s' \<and> history_ok s') \<and>
      (stored_ok st \<longrightarrow> history_ok (snd (handleRestoreAutosave image_src (st, s)))) \<and>
      stored_ok (fst (autosave_fire image_src now (st, s))))"
proof -
  have restore: "history_ok (snd (handleRestoreAutosave image_src (st, s)))"
    if "history_ok s" and "stored_ok st"
    using that
    by (cases st) (simp_all add: handleRestoreAutosave_def stored_ok_def history_ok_def)
  have save: "stored_ok (fst (autosave_fire image_src now (st, s)))" if "history_ok s"
    using that by (simp add: autosave_fire_def stored_ok_def history_ok_def)
  show ?thesis using history_ok_initial history_ok_handle restore save by blast
qed

theorem history_invariant_witness:
  "history_ok initial_editor \<and>
   handle Rotate initial_editor =
     Done (initial_editor\<lparr>rotation := 90,
             history := [INITIAL_STATE, INITIAL_STATE\<lparr>rotation := 90\<rparr>],
             currentIndex := 1\<rparr>) \<and>
   history_ok (initial_editor\<lparr>rotation := 90,
             history := [INITIAL_STATE, INITIAL_STATE\<lparr>rotation := 90\<rparr>],
             currentIndex := 1\<rparr>) \<and>
   stored_ok (fst (autosave_fire ''img'' 7 (Absent, initial_editor))) \<and>
   history_ok (snd (handleRestoreAutosave ''img''
     (fst (autosave_fire ''img'' 7 (Absent, initial_editor)), initial_editor)))"
proof -
  have h: "handle Rotate initial_editor =
     Done (initial_editor\<lparr>rotation := 90,
             history := [INITIAL_STATE, INITIAL_STATE\<lparr>rotation := 90\<rparr>],
             currentIndex := 1\<rparr>)"
    by (simp add: initial_editor_def INITIAL_STATE_def handleRotate_def
        addToHistory_def js_index_def js_slice0_def js_rem_def)
  show ?thesis
    using history_invariant [of initial_editor Rotate
        "fst (autosave_fire ''img'' 7 (Absent, initial_editor))" "''img''" 7]
      history_invariant [of initial_editor Rotate Absent "''img''" 7]
    unfolding h by auto
qed

text \<open>
  The claim as written has restore preserve the invariant whatever the slot holds. With a
  stored value that parses, carries the signature of the loaded source and has an empty
  history, the restore is offered, and after it the session has no snapshot at its index.
\<close>

theorem restore_breaks_invariant_counterexample:
  "history_ok initial_editor \<and>
   restore_offered (snd (autosave_check ''img'' (Saved bad_snapshot, initial_editor))) \<and>
   \<not> history_ok (snd (handleRestoreAutosave ''img''
        (autosave_check ''img'' (Saved bad_snapshot, initial_editor))))"
proof -
  have sig: "getImageSignature ''img'' = ''3-img-img''"
    by code_simp
  have chk: "autosave_check ''img'' (Saved bad_snapshot, initial_editor) =
             (Saved bad_snapshot, initial_editor\<lparr>hasAutosave := True\<rparr>)"
    by (simp add: autosave_check_def sig bad_snapshot_def)
  have "\<not> history_ok (snd (handleRestoreAutosave ''img''
          (Saved bad_snapshot, initial_editor\<lparr>hasAutosave := True\<rparr>)))"
    by (simp add: handleRestoreAutosave_def sig bad_snapshot_def history_ok_def)
  then show ?thesis
    unfolding chk using history_ok_initial by (simp add: restore_offered_def)
qed

text \<open>
  Claim C7, as amended. In a state with \<open>0 \<le> index < length\<close>: undo changes nothing exactly
  when the index is 0, and otherwise decrements the index and loads the snapshot at the new
  index into the live parameters; redo changes nothing exactly when the index is the last
  position, and otherwise increments the index and loads the snapshot there. Neither
  handler raises an error; at the boundary it returns normally with the state unchanged.
\<close>

theorem undo_redo_boundaries:
  assumes "0 \<le> currentIndex s" and "currentIndex s < int (length (history s))"
  shows "(handleUndo s = Done s \<longleftrightarrow> currentIndex s = 0) \<and>
         (currentIndex s \<noteq> 0 \<longrightarrow>
            handleUndo s =
              Done (s\<lparr>currentIndex := currentIndex s - 1,
                      brightness := brightness (history s ! nat (currentIndex s - 1)),
                      contrast := contrast (history s ! nat (currentIndex s - 1)),
                      rotation := rotation (history s ! nat (currentIndex s - 1)),
                      cropRatio := cropRatio (history s ! nat (currentIndex s - 1))\<rparr>)) \<and>
         (handleRedo s = Done s \<longleftrightarrow> currentIndex s = int (length (history s)) - 1) \<and>
         (currentIndex s \<noteq> int (length (history s)) - 1 \<longrightarrow>
            handleRedo s =
              Done (s\<lparr>currentIndex := currentIndex s + 1,
                      brightness := brightness (history s ! nat (currentIndex s + 1)),
                      contrast := contrast (history s ! nat (currentIndex s + 1)),
                      rotation := rotation (history s ! nat (currentIndex s + 1)),
                      cropRatio := cropRatio (history s ! nat (currentIndex s + 1))\<rparr>))"
proof -
  have u0: "handleUndo s = Done s" if "currentIndex s = 0"
    using that by (simp add: handleUndo_at_start)
  have u1: "handleUndo s =
              Done (s\<lparr>currentIndex := currentIndex s - 1,
                      brightness := brightness (history s ! nat (currentIndex s - 1)),
                      contrast := contrast (history s ! nat (currentIndex s - 1)),
                      rotation := rotation (history s ! nat (currentIndex s - 1)),
                      cropRatio := cropRatio (history s ! nat (currentIndex s - 1))\<rparr>)"
    if "currentIndex s \<noteq> 0"
    using that assms by (intro handleUndo_step) simp_all
  have u2: "handleUndo s \<noteq> Done s" if "currentIndex s \<noteq> 0"
  proof
    assume "handleUndo s = Done s"
    then have "currentIndex (state_of (handleUndo s)) = currentIndex s" by simp
    then show False using u1 [OF that] by simp
  qed
  have r0: "handleRedo s = Done s" if "currentIndex s = int (length (history s)) - 1"
    using that by (simp add: handleRedo_at_end)
  have r1: "handleRedo s =
              Done (s\<lparr>currentIndex := currentIndex s + 1,
                      brightness := brightness (history s ! nat (currentIndex s + 1)),
                      contrast := contrast (history s ! nat (currentIndex s + 1)),
                      rotation := rotation (history s ! nat (currentIndex s + 1)),
                      cropRatio := cropRatio (history s ! nat (currentIndex s + 1))\<rparr>)"
    if "currentIndex s \<noteq> int (length (history s)) - 1"
    using that assms by (intro handleRedo_step) simp_all
  have r2: "handleRedo s \<noteq> Done s" if "currentIndex s \<noteq> int (length (history s)) - 1"
  proof
    assume "handleRedo s = Done s"
    then have "currentIndex (state_of (handleRedo s)) = currentIndex s" by simp
    then show False using r1 [OF that] by simp
  qed
  show ?thesis using u0 u1 u2 r0 r1 r2 by blast
qed

theorem undo_redo_boundaries_witness:
  "(0::int) \<le> currentIndex initial_editor \<and>
   currentIndex initial_editor < int (length (history initial_editor)) \<and>
   handleUndo initial_editor = Done initial_editor \<and>
   handleRedo initial_editor = Done initial_editor"
  using undo_redo_boundaries [of initial_editor]
  by (simp add: initial_editor_def)

text \<open>
  The claim as written has undo fail with an error at index 0. In the initial state the
  handler returns normally: its guard skips the body, and no error exists to report.
\<close>

theorem undo_at_start_counterexample:
  "handleUndo initial_editor = Done initial_editor"
  by (simp add: handleUndo_def initial_editor_def)

text \<open>
  Claim C10. When the live brightness or contrast differs from that of the snapshot at the
  current index (a slider was moved and not yet committed), a rotate or a crop change
  pushes a snapshot that carries the live brightness and contrast, so the pending slider
  values are committed in the same history entry.
\<close>

theorem discrete_commit_carries_live_sliders:
  assumes "current s = Some c"
    and "brightness s \<noteq> brightness c \<or> contrast s \<noteq> contrast c"
  shows "handleRotate s =
           Done (s\<lparr>rotation := js_rem (rotation s + 90) 360,
                   history := take (nat (currentIndex s) + 1) (history s) @
                     [\<lparr>brightness = brightness s, contrast = contrast s,
                       rotation = js_rem (rotation s + 90) 360, cropRatio = cropRatio s\<rparr>],
                   currentIndex := currentIndex s + 1\<rparr>) \<and>
         handleCropChange ratio s =
           Done (s\<lparr>cropRatio := ratio,
                   history := take (nat (currentIndex s) + 1) (history s) @
                     [\<lparr>brightness = brightness s, contrast = contrast s,
                       rotation = rotation s, cropRatio = ratio\<rparr>],
                   currentIndex := currentIndex s + 1\<rparr>)"
proof -
  have cur_r: "current (s\<lparr>rotation := r\<rparr>) = Some c" for r
    using assms(1) by (simp add: current_def)
  have cur_q: "current (s\<lparr>cropRatio := q\<rparr>) = Some c" for q
    using assms(1) by (simp add: current_def)
  have ne: "\<lparr>brightness = brightness s, contrast = contrast s,
             rotation = r, cropRatio = q\<rparr> \<noteq> c" for r q
    using assms(2) by auto
  show ?thesis
    using addToHistory_new [OF cur_r ne] addToHistory_new [OF cur_q ne]
    by (simp add: handleRotate_def handleCropChange_def Let_def)
qed

theorem discrete_commit_carries_live_sliders_witness:
  "current (run [SetBrightness 150] initial_editor) = Some INITIAL_STATE \<and>
   brightness (run [SetBrightness 150] initial_editor) \<noteq> brightness INITIAL_STATE \<and>
   handleRotate (run [SetBrightness 150] initial_editor) =
     Done \<lparr>brightness = 150, contrast = 100, rotation = 90, cropRatio = Original,
            history = [INITIAL_STATE,
              \<lparr>brightness = 150, contrast = 100, rotation = 90, cropRatio = Original\<rparr>],
            currentIndex = 1, hasAutosave = False\<rparr>"
proof -
  have st: "run [SetBrightness 150] initial_editor = initial_editor\<lparr>brightness := 150\<rparr>"
    by simp
  have c: "current (run [SetBrightness 150] initial_editor) = Some INITIAL_STATE"
    unfolding st by (simp add: current_def js_index_def initial_editor_def)
  have b: "brightness (run [SetBrightness 150] initial_editor) \<noteq> brightness INITIAL_STATE"
    unfolding st by (simp add: initial_editor_def INITIAL_STATE_def)
  show ?thesis
    using discrete_commit_carries_live_sliders [OF c disjI1 [OF b], of Original] c b
    unfolding st by (simp add: initial_editor_def INITIAL_STATE_def js_rem_def)
qed

subsection \<open>Autosave\<close>




subsection \<open>Final render\<close>

text \<open>
  Claim C6, as amended. When the source does not decode, Apply does nothing: no callback of
  the parent is invoked (there is no save and no error report), and the parent and the
  session are as before, the editor still shown.
\<close>

theorem decode_failure_silent:
  assumes "img_load b image_src = None"
  shows "generateFinalImage b image_src s = [] \<and>
         apply_click b image_src (a, s) = (a, s)"
  using assms by (simp add: generateFinalImage_def apply_click_def)

theorem decode_failure_silent_witness:
  "img_load undecodable ''img'' = None \<and>
   apply_click undecodable ''img'' (editing, initial_editor) = (editing, initial_editor)"
  using decode_failure_silent [of undecodable "''img''" initial_editor editing]
  by (simp add: undecodable_def)

text \<open>
  The claim as written has the failure reported to the caller. The component has no
  \<^verbatim>\<open>onerror\<close> handler and its properties give it no callback for errors: with a source
  that does not decode, the list of callbacks invoked is empty.
\<close>

theorem decode_failure_counterexample:
  "generateFinalImage undecodable ''img'' initial_editor = []"
  by (simp add: generateFinalImage_def undecodable_def)

end
